theory Spec2Isabelle
  imports Main "HOL-Library.Char_ord" "HOL-Library.List_Lexorder" "HOL-Library.AList"
begin

section \<open>Data model\<close>

text \<open>
  A Python \<^verbatim>\<open>str\<close> is modelled as a \<^typ>\<open>string\<close>: the list of the bytes of its UTF-8
  encoding (a surrogate code point, which a \<^verbatim>\<open>str\<close> may hold, by the three bytes of the
  same scheme).  Equality of strings is equality of the byte lists, and the order on
  strings is the lexicographic order on bytes, which on such encodings is Python's
  order by code point.  Where the code looks at the characters of a string (\<^verbatim>\<open>int\<close>,
  \<^verbatim>\<open>re.search\<close>), the model decodes the bytes into code points.
\<close>
text \<open>
  The abstract syntax of \<^verbatim>\<open>flowc/ast.py\<close>.  \<open>retries\<close> is optional because the
  bytecode loader builds \<open>Step\<close> objects whose \<open>retries\<close> may be \<open>None\<close>; the parser
  always sets an integer.
\<close>

record Step =
  name :: string
  run :: "string option"
  timeout :: "string option"
  retries :: "int option"
  depends_on :: "string list"
  on_error :: "string option"

record Notify =
  name :: string
  email :: "string option"
  subject :: "string option"
  body :: "string option"

record Workflow =
  name :: string
  triggers :: "(string \<times> string) list"
  env :: "(string \<times> string) list"
  steps :: "Step list"
  notifies :: "Notify list"


subsection \<open>Code points\<close>

definition byte :: "char \<Rightarrow> nat" where
  "byte c = of_char c"

definition is_cont :: "char \<Rightarrow> bool" where
  "is_cont c = (0x80 \<le> byte c \<and> byte c < 0xC0)"

definition cont_bits :: "char \<Rightarrow> nat" where
  "cont_bits c = byte c - 0x80"

text \<open>
  \<open>utf8_next t\<close> is the first code point of \<open>t\<close> and the rest of \<open>t\<close>; \<open>None\<close> when \<open>t\<close> is
  empty or does not start with the encoding of a code point (so at a continuation
  byte, in the middle of a character).
\<close>

fun utf8_next :: "string \<Rightarrow> (nat \<times> string) option" where
  "utf8_next [] = None"
| "utf8_next (a # t) =
     (if byte a < 0x80 then Some (byte a, t)
      else if 0xC0 \<le> byte a \<and> byte a < 0xE0 then
        (case t of
           b # r \<Rightarrow> if is_cont b then Some ((byte a - 0xC0) * 0x40 + cont_bits b, r) else None
         | _ \<Rightarrow> None)
      else if 0xE0 \<le> byte a \<and> byte a < 0xF0 then
        (case t of
           b # c # r \<Rightarrow>
             if is_cont b \<and> is_cont c
             then Some (((byte a - 0xE0) * 0x40 + cont_bits b) * 0x40 + cont_bits c, r)
             else None
         | _ \<Rightarrow> None)
      else if 0xF0 \<le> byte a \<and> byte a < 0xF8 then
        (case t of
           b # c # d # r \<Rightarrow>
             if is_cont b \<and> is_cont c \<and> is_cont d
             then Some ((((byte a - 0xF0) * 0x40 + cont_bits b) * 0x40 + cont_bits c) * 0x40
                        + cont_bits d, r)
             else None
         | _ \<Rightarrow> None)
      else None)"

lemma utf8_next_shorter:
  assumes "utf8_next t = Some (c, r)"
  shows "length r < length t"
proof (cases t)
  case Nil
  with assms show ?thesis by simp
next
  case (Cons a u)
  with assms have "\<exists>p. t = p @ r \<and> p \<noteq> []"
    by (simp split: if_split_asm list.split_asm)
  then show ?thesis by auto
qed

text \<open>The code points of a string; \<open>None\<close> for a byte list that encodes no string.\<close>

function utf8_decode :: "string \<Rightarrow> nat list option" where
  "utf8_decode [] = Some []"
| "utf8_decode (a # t) =
     (case utf8_next (a # t) of
        None \<Rightarrow> None
      | Some (c, r) \<Rightarrow> map_option ((#) c) (utf8_decode r))"
  by pat_completeness auto
termination
  by (relation "measure length") (auto simp del: utf8_next.simps dest: utf8_next_shorter)

text \<open>
  The code points for which \<^verbatim>\<open>str.isspace\<close> holds (CPython's \<^verbatim>\<open>Py_UNICODE_ISSPACE\<close>);
  the same set is the class \<^verbatim>\<open>\s\<close> of \<^verbatim>\<open>re\<close> on a \<^verbatim>\<open>str\<close> pattern.
\<close>

definition uni_isspace :: "nat \<Rightarrow> bool" where
  "uni_isspace c = (c \<in> set [0x09, 0x0A, 0x0B, 0x0C, 0x0D, 0x1C, 0x1D, 0x1E, 0x1F, 0x20,
     0x85, 0xA0, 0x1680, 0x2000, 0x2001, 0x2002, 0x2003, 0x2004, 0x2005, 0x2006, 0x2007,
     0x2008, 0x2009, 0x200A, 0x2028, 0x2029, 0x202F, 0x205F, 0x3000])"

text \<open>
  What the code takes from the interpreter it runs on: the limit on the number of
  digits that \<^verbatim>\<open>int\<close> converts (\<^verbatim>\<open>sys.get_int_max_str_digits()\<close>, 0 for no limit) and the
  decimal digit value of a code point in the interpreter's Unicode database
  (\<^verbatim>\<open>Py_UNICODE_TODECIMAL\<close>), which grows from one Unicode version to the next.
\<close>

record interpreter =
  int_max_str_digits :: nat
  to_decimal :: "nat \<Rightarrow> nat option"

text \<open>
  CPython 3.11 with its defaults: the limit is 4300, and the database is Unicode 14.0,
  where the decimal digits are 66 runs of ten code points, each run holding the digits
  0 to 9 in order; the list gives the first code point of each run.
\<close>

definition unicode_14_zeros :: "nat list" where
  "unicode_14_zeros =
    [0x30, 0x660, 0x6F0, 0x7C0, 0x966, 0x9E6, 0xA66, 0xAE6, 0xB66, 0xBE6, 0xC66, 0xCE6,
     0xD66, 0xDE6, 0xE50, 0xED0, 0xF20, 0x1040, 0x1090, 0x17E0, 0x1810, 0x1946, 0x19D0,
     0x1A80, 0x1A90, 0x1B50, 0x1BB0, 0x1C40, 0x1C50, 0xA620, 0xA8D0, 0xA900, 0xA9D0,
     0xA9F0, 0xAA50, 0xABF0, 0xFF10, 0x104A0, 0x10D30, 0x11066, 0x110F0, 0x11136,
     0x111D0, 0x112F0, 0x11450, 0x114D0, 0x11650, 0x116C0, 0x11730, 0x118E0, 0x11950,
     0x11C50, 0x11D50, 0x11DA0, 0x16A60, 0x16AC0, 0x16B50, 0x1D7CE, 0x1D7D8, 0x1D7E2,
     0x1D7EC, 0x1D7F6, 0x1E140, 0x1E2F0, 0x1E950, 0x1FBF0]"

definition unicode_14_decimal :: "nat \<Rightarrow> nat option" where
  "unicode_14_decimal c =
     (case filter (\<lambda>z. z \<le> c \<and> c < z + 10) unicode_14_zeros of
        [] \<Rightarrow> None
      | z # _ \<Rightarrow> Some (c - z))"

definition cpython_3_11 :: interpreter where
  "cpython_3_11 = \<lparr>int_max_str_digits = 4300, to_decimal = unicode_14_decimal\<rparr>"
text \<open>
  A member of a JSON object: the key is missing, or it holds \<open>null\<close>, or a value.
  \<open>dict_get\<close> is \<^verbatim>\<open>d.get(k)\<close> and \<open>dict_get_default\<close> is \<^verbatim>\<open>d.get(k, dflt)\<close>.
\<close>

datatype 'a field = Absent | Null | Val 'a

fun dict_get :: "'a field \<Rightarrow> 'a option" where
  "dict_get Absent = None"
| "dict_get Null = None"
| "dict_get (Val v) = Some v"


text \<open>
  One instruction of the bytecode (a dict of \<^verbatim>\<open>flowc/ir.py\<close>); every instruction
  names its step.
\<close>

record instr =
  op :: "string field"
  step :: string
  cmd :: "string field"
  timeout :: "string field"
  retries :: "int field"
  depends_on :: "string list field"
  on_error :: "string field"

section \<open>The timeout parser (\<^verbatim>\<open>_parse_timeout\<close>)\<close>

text \<open>
  \<^verbatim>\<open>str.rstrip("s")\<close> removes every trailing \<open>s\<close>.
\<close>

definition rstrip_s :: "string \<Rightarrow> string" where
  "rstrip_s t = rev (dropWhile (\<lambda>c. c = CHR ''s'') (rev t))"

text \<open>
  Python's \<^verbatim>\<open>int(text)\<close> on a \<^verbatim>\<open>str\<close>, base 10, in the two stages of CPython.

  First (\<^verbatim>\<open>_PyUnicode_TransformDecimalAndSpaceToASCII\<close>) the string becomes an ASCII
  buffer: a code point below 127 stays, another code point becomes a space if it is
  white space, the ASCII digit of its value if it is a decimal digit, and otherwise
  a question mark that ends the buffer.
\<close>

fun to_ascii :: "(nat \<Rightarrow> nat option) \<Rightarrow> nat list \<Rightarrow> string" where
  "to_ascii dec [] = []"
| "to_ascii dec (c # r) =
     (if c < 127 then char_of c # to_ascii dec r
      else if uni_isspace c then CHR '' '' # to_ascii dec r
      else (case dec c of
              None \<Rightarrow> [CHR ''?'']
            | Some d \<Rightarrow> char_of (48 + d) # to_ascii dec r))"

text \<open>
  Then (\<^verbatim>\<open>PyLong_FromString\<close>) the buffer is parsed: optional white space (tab, line
  feed, vertical tab, form feed, carriage return, space) on both sides, an optional
  sign, then decimal digits in which single underscores may separate digits.  Anything
  else is a \<^verbatim>\<open>ValueError\<close>, here \<open>None\<close>.  \<open>max_str_digits\<close> is the interpreter's
  limit on the number of digits converted; it is only enforced beyond 640 digits.
\<close>

definition c_isspace :: "char \<Rightarrow> bool" where
  "c_isspace c = (c \<in> set [CHR 0x09, CHR 0x0A, CHR 0x0B, CHR 0x0C, CHR 0x0D, CHR 0x20])"

definition is_digit :: "char \<Rightarrow> bool" where
  "is_digit c = (CHR ''0'' \<le> c \<and> c \<le> CHR ''9'')"

definition digit_val :: "char \<Rightarrow> int" where
  "digit_val c = int (of_char c) - 48"

definition dec_val :: "string \<Rightarrow> int" where
  "dec_val ds = foldl (\<lambda>a c. 10 * a + digit_val c) 0 ds"

fun double_underscore :: "string \<Rightarrow> bool" where
  "double_underscore (a # b # t) =
     ((a = CHR ''_'' \<and> b = CHR ''_'') \<or> double_underscore (b # t))"
| "double_underscore _ = False"

definition long_from_string :: "nat \<Rightarrow> string \<Rightarrow> int option" where
  "long_from_string max_str_digits t =
     (let u = dropWhile c_isspace t;
          neg = (case u of [] \<Rightarrow> False | c # _ \<Rightarrow> c = CHR ''-'');
          v = (case u of [] \<Rightarrow> [] | c # r \<Rightarrow> if c = CHR ''+'' \<or> c = CHR ''-'' then r else u);
          body = takeWhile (\<lambda>c. is_digit c \<or> c = CHR ''_'') v;
          rest = dropWhile (\<lambda>c. is_digit c \<or> c = CHR ''_'') v;
          ds = filter is_digit body
      in if body = [] \<or> hd body = CHR ''_'' \<or> last body = CHR ''_'' \<or> double_underscore body
            \<or> dropWhile c_isspace rest \<noteq> []
         then None
         else if 640 < length ds \<and> 0 < max_str_digits \<and> max_str_digits < length ds
         then None
         else Some (if neg then - dec_val ds else dec_val ds))"

text \<open>
  \<^verbatim>\<open>int(text)\<close> with the \<^verbatim>\<open>ValueError\<close> as \<open>None\<close>.  A byte list that encodes no string
  is no argument of the code; the model gives \<open>None\<close> for it.
\<close>

definition py_int :: "interpreter \<Rightarrow> string \<Rightarrow> int option" where
  "py_int ip t =
     (case utf8_decode t of
        None \<Rightarrow> None
      | Some cps \<Rightarrow> long_from_string (int_max_str_digits ip) (to_ascii (to_decimal ip) cps))"

text \<open>
  \<^verbatim>\<open>_parse_timeout\<close> of \<^verbatim>\<open>ParallelVM\<close> and of \<^verbatim>\<open>ParallelRuntime\<close> (the two bodies are
  the same): \<^verbatim>\<open>if not timeout_raw: return None\<close>, then \<^verbatim>\<open>int(str(timeout_raw).rstrip("s"))\<close>
  with every exception turned into \<open>None\<close>.
\<close>

definition parse_timeout :: "interpreter \<Rightarrow> string option \<Rightarrow> int option" where
  "parse_timeout ip timeout_raw =
     (case timeout_raw of
        None \<Rightarrow> None
      | Some t \<Rightarrow> if t = [] then None else py_int ip (rstrip_s t))"

section \<open>The worker body (\<^verbatim>\<open>_execute_step\<close>)\<close>

text \<open>
  What a worker sees of the rest of the system: \<open>sandbox attempt\<close> is the value that
  \<^verbatim>\<open>run_cmd_sandbox\<close> returns at the attempt with that index, and \<open>cancel_seen attempt\<close>
  is the value of the cancel/abort test the worker makes before that attempt.
  The result lists the arguments of every sandbox invocation, in order.
\<close>

datatype status = QUEUED | RUNNING | SUCCEEDED | FAILED


record worker_result =
  ok :: bool
  sandbox_calls :: "(string \<times> int option) list"
  reports :: "status list"





text \<open>The characters that can occur in a buffer accepted by \<open>long_from_string\<close>.\<close>

definition int_char :: "char \<Rightarrow> bool" where
  "int_char c = (is_digit c \<or> c_isspace c \<or> c = CHR ''+'' \<or> c = CHR ''-'' \<or> c = CHR ''_'')"

text \<open>
  The code points that can occur in a string accepted by \<open>py_int\<close>: decimal digits,
  white space, a sign and the underscore.
\<close>

definition decimal_cp :: "(nat \<Rightarrow> nat option) \<Rightarrow> nat \<Rightarrow> bool" where
  "decimal_cp dec c = (if c < 127 then 48 \<le> c \<and> c \<le> 57 else dec c \<noteq> None)"

definition space_cp :: "nat \<Rightarrow> bool" where
  "space_cp c = (if c < 127 then c \<in> set [0x09, 0x0A, 0x0B, 0x0C, 0x0D, 0x20] else uni_isspace c)"

definition int_cp :: "(nat \<Rightarrow> nat option) \<Rightarrow> nat \<Rightarrow> bool" where
  "int_cp dec c = (decimal_cp dec c \<or> space_cp c \<or> c = 43 \<or> c = 45 \<or> c = 95)"

section \<open>The semantic analyzer (\<^verbatim>\<open>flowc/semantic.py\<close>)\<close>

subsection \<open>Regular expressions of the banned patterns\<close>

text \<open>
  The fragment of Python's \<^verbatim>\<open>re\<close> syntax that \<^verbatim>\<open>BANNED_PATTERNS\<close> uses: a literal
  ASCII character, \<^verbatim>\<open>\s\<close>, the anchors \<^verbatim>\<open>^\<close> and \<^verbatim>\<open>$\<close>, concatenation, alternation and
  \<^verbatim>\<open>+\<close>.  Groups only bracket.  Matching is case-sensitive: a literal matches that
  character only.  \<^verbatim>\<open>\s\<close> matches one character for which \<open>uni_isspace\<close> holds, of one
  or several bytes.
\<close>

datatype regex = Chr char | Space | Bol | Eol | Seq regex regex | Alt regex regex | Plus regex

text \<open>
  A position in the subject string is the pair of ``this is the start of the string''
  and the rest of the string.  \<open>re_match r p\<close> lists the positions at which a match of
  \<open>r\<close> that starts at \<open>p\<close> can end.  \<^verbatim>\<open>^\<close> matches at the start of the string and \<^verbatim>\<open>$\<close>
  at its end or before a line feed that ends it (no flags are given).  The positions
  are those of the bytes; at a position inside a character neither a literal nor
  \<^verbatim>\<open>\s\<close> matches, so the search finds the matches that start at a character.
\<close>

type_synonym position = "bool \<times> string"

fun plus_iter :: "(position \<Rightarrow> position list) \<Rightarrow> nat \<Rightarrow> position list \<Rightarrow> position list" where
  "plus_iter f 0 ps = []"
| "plus_iter f (Suc k) ps = (let qs = concat (map f ps) in qs @ plus_iter f k qs)"

fun re_match :: "regex \<Rightarrow> position \<Rightarrow> position list" where
  "re_match (Chr c) (b, t) = (case t of [] \<Rightarrow> [] | x # xs \<Rightarrow> if x = c then [(False, xs)] else [])"
| "re_match Space (b, t) =
     (case utf8_next t of
        None \<Rightarrow> []
      | Some (c, r) \<Rightarrow> if uni_isspace c then [(False, r)] else [])"
| "re_match Bol (b, t) = (if b then [(b, t)] else [])"
| "re_match Eol (b, t) = (if t = [] \<or> t = [CHR 0x0A] then [(b, t)] else [])"
| "re_match (Seq r1 r2) p = concat (map (re_match r2) (re_match r1 p))"
| "re_match (Alt r1 r2) p = re_match r1 p @ re_match r2 p"
| "re_match (Plus r) p = plus_iter (re_match r) (Suc (length (snd p))) [p]"

text \<open>The positions of a string, from left to right.\<close>

fun positions :: "bool \<Rightarrow> string \<Rightarrow> position list" where
  "positions b [] = [(b, [])]"
| "positions b (x # xs) = (b, x # xs) # positions False xs"

text \<open>\<^verbatim>\<open>re.search(pat, text)\<close> as a truth value: some match starts somewhere.\<close>

definition re_search :: "regex \<Rightarrow> string \<Rightarrow> bool" where
  "re_search r t = (\<exists>p \<in> set (positions True t). re_match r p \<noteq> [])"

text \<open>
  \<^verbatim>\<open>BANNED_PATTERNS\<close>, in the order of the source:
  \<^verbatim>\<open>rm\s+-rf\<close>, \<^verbatim>\<open>(^|;|\s)\|(\s|$)\<close>, \<^verbatim>\<open>(>>)\<close>, \<^verbatim>\<open>(^|;|\s)&(\s|$)\<close> and the backtick.
\<close>

definition BANNED_PATTERNS :: "regex list" where
  "BANNED_PATTERNS =
    [Seq (Chr CHR ''r'') (Seq (Chr CHR ''m'') (Seq (Plus Space)
       (Seq (Chr CHR ''-'') (Seq (Chr CHR ''r'') (Chr CHR ''f''))))),
     Seq (Alt Bol (Alt (Chr CHR '';'') Space)) (Seq (Chr CHR ''|'') (Alt Space Eol)),
     Seq (Chr CHR ''>'') (Chr CHR ''>''),
     Seq (Alt Bol (Alt (Chr CHR '';'') Space)) (Seq (Chr CHR ''&'') (Alt Space Eol)),
     Chr CHR 0x60]"

subsection \<open>Errors\<close>

text \<open>
  \<^verbatim>\<open>SemanticError\<close> with its message: one constructor for each message format, carrying
  the values the message is formatted with.  \<open>KeyError\<close> is the exception of a failed
  dict lookup.
\<close>

datatype error =
    DuplicateStepName string
  | MissingDependency string string
  | CycleDetected
  | BannedPattern string regex
  | CycleBuildingDag
  | UnknownDependency string string
  | KeyError string

subsection \<open>The checks\<close>

text \<open>\<^verbatim>\<open>check_duplicates\<close>: the loop carries the set \<^verbatim>\<open>names\<close>.\<close>

fun check_duplicates_loop :: "Step list \<Rightarrow> string set \<Rightarrow> error + unit" where
  "check_duplicates_loop [] names = Inr ()"
| "check_duplicates_loop (s # ss) names =
     (if Step.name s \<in> names then Inl (DuplicateStepName (Step.name s))
      else check_duplicates_loop ss (insert (Step.name s) names))"

definition check_duplicates :: "Step list \<Rightarrow> error + unit" where
  "check_duplicates ss = check_duplicates_loop ss {}"

text \<open>\<^verbatim>\<open>check_missing_dependencies\<close>: the two nested loops.\<close>

fun missing_in_deps :: "string set \<Rightarrow> string \<Rightarrow> string list \<Rightarrow> error + unit" where
  "missing_in_deps names s [] = Inr ()"
| "missing_in_deps names s (d # ds) =
     (if d \<notin> names then Inl (MissingDependency s d) else missing_in_deps names s ds)"

fun missing_in_steps :: "string set \<Rightarrow> Step list \<Rightarrow> error + unit" where
  "missing_in_steps names [] = Inr ()"
| "missing_in_steps names (s # ss) =
     (case missing_in_deps names (Step.name s) (Step.depends_on s) of
        Inl e \<Rightarrow> Inl e
      | Inr _ \<Rightarrow> missing_in_steps names ss)"

definition check_missing_dependencies :: "Step list \<Rightarrow> error + unit" where
  "check_missing_dependencies ss = missing_in_steps (set (map Step.name ss)) ss"

text \<open>
  \<^verbatim>\<open>check_banned_commands\<close>: for each step with a non-empty command, the first pattern
  of the list that matches raises.
\<close>

fun banned_in_patterns :: "string \<Rightarrow> string \<Rightarrow> regex list \<Rightarrow> error + unit" where
  "banned_in_patterns s c [] = Inr ()"
| "banned_in_patterns s c (pat # pats) =
     (if re_search pat c then Inl (BannedPattern s pat) else banned_in_patterns s c pats)"

fun check_banned_commands :: "Step list \<Rightarrow> error + unit" where
  "check_banned_commands [] = Inr ()"
| "check_banned_commands (s # ss) =
     (case (case Step.run s of
              None \<Rightarrow> Inr ()
            | Some c \<Rightarrow> if c = [] then Inr () else banned_in_patterns (Step.name s) c BANNED_PATTERNS) of
        Inl e \<Rightarrow> Inl e
      | Inr _ \<Rightarrow> check_banned_commands ss)"

subsection \<open>Kahn's algorithm (the body shared by \<^verbatim>\<open>detect_cycle\<close> and \<^verbatim>\<open>build_dag\<close>)\<close>

text \<open>
  A Python dict is an association list in insertion order with distinct keys;
  \<open>map_of\<close> is the lookup and \<open>AList.update\<close> the assignment \<^verbatim>\<open>d[k] = v\<close>.  \<open>graph\<close> maps
  a step name to the set of its unresolved dependencies and \<open>indeg\<close> to their number.

  \<open>relax n\<close> is the loop \<^verbatim>\<open>for m in list(graph.keys())\<close> that follows the emission of \<open>n\<close>.
\<close>

type_synonym graph = "(string \<times> string set) list"
type_synonym indegs = "(string \<times> int) list"

fun relax :: "string \<Rightarrow> string list \<Rightarrow> graph \<times> indegs \<times> string list
    \<Rightarrow> error + (graph \<times> indegs \<times> string list)" where
  "relax n [] st = Inr st"
| "relax n (m # ms) (graph, indeg, queue) =
     (case map_of graph m of
        None \<Rightarrow> Inl (KeyError m)
      | Some g \<Rightarrow>
          if n \<in> g then
            (case map_of indeg m of
               None \<Rightarrow> Inl (KeyError m)
             | Some d \<Rightarrow>
                 relax n ms (AList.update m (g - {n}) graph, AList.update m (d - 1) indeg,
                             if d - 1 = 0 then queue @ [m] else queue))
          else relax n ms (graph, indeg, queue))"

text \<open>
  The while loop ends: each round takes one name from the queue, and a name is appended
  only when its counter goes from 1 to 0, which lowers \<open>pending\<close>.
\<close>

definition pending :: "indegs \<Rightarrow> nat" where
  "pending indeg = length (filter (\<lambda>(k, v). 0 < v) indeg)"

lemma pending_update:
  "map_of indeg m = Some d \<Longrightarrow>
   pending (AList.update m (d - 1) indeg) + (if d - 1 = 0 then 1 else 0) \<le> pending indeg"
proof (induction indeg)
  case Nil
  then show ?case by simp
next
  case (Cons p ps)
  obtain k v where p: "p = (k, v)" by (cases p)
  show ?case
  proof (cases "k = m")
    case True
    with Cons.prems p have "v = d" by simp
    with True p show ?thesis by (auto simp: pending_def)
  next
    case False
    with Cons.prems p have "map_of ps m = Some d" by simp
    from Cons.IH[OF this] False p show ?thesis by (auto simp: pending_def)
  qed
qed

lemma relax_measure:
  "relax n ms (graph, indeg, queue) = Inr (graph', indeg', queue') \<Longrightarrow>
   length queue' + pending indeg' \<le> length queue + pending indeg"
proof (induction ms arbitrary: graph indeg queue)
  case Nil
  then show ?case by simp
next
  case (Cons m ms)
  show ?case
  proof (cases "map_of graph m")
    case None
    with Cons.prems show ?thesis by simp
  next
    case (Some g)
    show ?thesis
    proof (cases "n \<in> g")
      case False
      with Some Cons.prems have "relax n ms (graph, indeg, queue) = Inr (graph', indeg', queue')"
        by simp
      from Cons.IH[OF this] show ?thesis .
    next
      case True
      show ?thesis
      proof (cases "map_of indeg m")
        case None
        with Some True Cons.prems show ?thesis by simp
      next
        case (Some d)
        let ?q = "if d - 1 = 0 then queue @ [m] else queue"
        from Some \<open>map_of graph m = Some g\<close> True Cons.prems
        have "relax n ms (AList.update m (g - {n}) graph, AList.update m (d - 1) indeg, ?q)
                = Inr (graph', indeg', queue')" by simp
        from Cons.IH[OF this] pending_update[OF Some] show ?thesis by (auto split: if_splits)
      qed
    qed
  qed
qed

text \<open>The loop \<^verbatim>\<open>while queue\<close> with \<^verbatim>\<open>queue.pop(0)\<close> and the final \<^verbatim>\<open>queue.sort()\<close>.\<close>

function kahn_loop :: "graph \<times> indegs \<times> string list \<times> string list \<Rightarrow> error + string list" where
  "kahn_loop (graph, indeg, queue, order) =
     (case queue of
        [] \<Rightarrow> Inr order
      | n # q \<Rightarrow>
          (case relax n (map fst graph) (graph, indeg, q) of
             Inl e \<Rightarrow> Inl e
           | Inr (graph', indeg', q') \<Rightarrow> kahn_loop (graph', indeg', sort q', order @ [n])))"
  by pat_completeness auto
termination
proof (relation "measure (\<lambda>(graph, indeg, queue, order). length queue + pending indeg)")
  show "wf (measure (\<lambda>(graph, indeg, queue, order). length queue + pending indeg))" by simp
next
  fix graph :: graph and indeg :: indegs and queue order :: "string list" and n q x2 graph' y indeg' q'
  assume "queue = n # q" and "relax n (map fst graph) (graph, indeg, q) = Inr x2"
    and "(graph', y) = x2" and "(indeg', q') = y"
  then have "relax n (map fst graph) (graph, indeg, q) = Inr (graph', indeg', q')" by auto
  from relax_measure[OF this] \<open>queue = n # q\<close>
  show "((graph', indeg', sort q', order @ [n]), (graph, indeg, queue, order))
        \<in> measure (\<lambda>(graph, indeg, queue, order). length queue + pending indeg)"
    by simp
qed

text \<open>
  The three dict and list comprehensions that precede the loop:
  \<^verbatim>\<open>graph = {s.name: set(s.depends_on) for s in steps}\<close>,
  \<^verbatim>\<open>indeg = {n: len(graph[n]) for n in graph}\<close> and
  \<^verbatim>\<open>queue = [n for n, d in indeg.items() if d == 0]\<close>.
\<close>

definition dep_graph :: "Step list \<Rightarrow> graph" where
  "dep_graph ss = foldl (\<lambda>g s. AList.update (Step.name s) (set (Step.depends_on s)) g) [] ss"

definition in_degrees :: "graph \<Rightarrow> indegs" where
  "in_degrees graph = map (\<lambda>(n, g). (n, int (card g))) graph"

definition zero_indeg :: "indegs \<Rightarrow> string list" where
  "zero_indeg indeg = map fst (filter (\<lambda>(n, d). d = 0) indeg)"

definition kahn :: "Step list \<Rightarrow> error + string list" where
  "kahn ss =
     (let graph = dep_graph ss;
          indeg = in_degrees graph;
          queue = zero_indeg indeg
      in kahn_loop (graph, indeg, sort queue, []))"

definition detect_cycle :: "Step list \<Rightarrow> error + unit" where
  "detect_cycle ss =
     (case kahn ss of
        Inl e \<Rightarrow> Inl e
      | Inr order \<Rightarrow> if length order \<noteq> length ss then Inl CycleDetected else Inr ())"

definition build_dag :: "Step list \<Rightarrow> error + string list" where
  "build_dag ss =
     (case kahn ss of
        Inl e \<Rightarrow> Inl e
      | Inr order \<Rightarrow> if length order \<noteq> length ss then Inl CycleBuildingDag else Inr order)"

text \<open>\<^verbatim>\<open>semantic_check\<close>: the five calls in sequence; an exception ends the sequence.\<close>

definition semantic_check :: "Workflow \<Rightarrow> error + string list" where
  "semantic_check workflow =
     (case check_duplicates (steps workflow) of Inl e \<Rightarrow> Inl e | Inr _ \<Rightarrow>
      case check_missing_dependencies (steps workflow) of Inl e \<Rightarrow> Inl e | Inr _ \<Rightarrow>
      case detect_cycle (steps workflow) of Inl e \<Rightarrow> Inl e | Inr _ \<Rightarrow>
      case check_banned_commands (steps workflow) of Inl e \<Rightarrow> Inl e | Inr _ \<Rightarrow>
      build_dag (steps workflow))"

subsection \<open>The dependency relation, for stating properties\<close>

text \<open>
  \<open>deps_of ss m\<close> is the set of the names that the steps called \<open>m\<close> depend on, and
  \<open>dep_rel ss\<close> the edges \<open>d \<rightarrow> m\<close> of the dependency graph.  \<open>ready_set ss emitted\<close> is the
  set of the steps not yet emitted whose dependencies have all been emitted: the nodes
  that wait in the queue with unresolved-dependency count zero.
\<close>

definition deps_of :: "Step list \<Rightarrow> string \<Rightarrow> string set" where
  "deps_of ss m = set (concat (map Step.depends_on (filter (\<lambda>s. Step.name s = m) ss)))"

definition dep_rel :: "Step list \<Rightarrow> (string \<times> string) set" where
  "dep_rel ss = set (concat (map (\<lambda>s. map (\<lambda>d. (d, Step.name s)) (Step.depends_on s)) ss))"

definition ready_set :: "Step list \<Rightarrow> string list \<Rightarrow> string set" where
  "ready_set ss emitted =
     {m \<in> set (map Step.name ss). m \<notin> set emitted \<and> deps_of ss m \<subseteq> set emitted}"

subsection \<open>Invariants of the loop, for the proofs\<close>

text \<open>
  \<open>consistent\<close>: the two dicts have the same distinct keys and every counter is the
  size of the (finite) set of unresolved dependencies.
\<close>

definition consistent :: "graph \<Rightarrow> indegs \<Rightarrow> bool" where
  "consistent graph indeg \<longleftrightarrow>
     distinct (map fst graph) \<and> map fst indeg = map fst graph \<and>
     (\<forall>m g. map_of graph m = Some g \<longrightarrow> finite g \<and> map_of indeg m = Some (int (card g)))"

text \<open>
  \<open>kahn_inv\<close>: what holds of the variables at the top of every round of the loop, for the
  step list \<open>ss\<close>.
\<close>

definition kahn_inv :: "Step list \<Rightarrow> graph \<times> indegs \<times> string list \<times> string list \<Rightarrow> bool" where
  "kahn_inv ss st =
     (case st of (graph, indeg, queue, order) \<Rightarrow>
        consistent graph indeg \<and> map fst graph = map Step.name ss \<and>
        (\<forall>m \<in> set (map Step.name ss). map_of graph m = Some (deps_of ss m - set order)) \<and>
        sorted queue \<and> distinct queue \<and> set queue = ready_set ss order \<and>
        distinct order \<and> set order \<subseteq> set (map Step.name ss) \<and>
        (\<forall>m \<in> set order. deps_of ss m \<subseteq> set order) \<and>
        (\<forall>i < length order. order ! i \<in> ready_set ss (take i order) \<and>
                               order ! i = Min (ready_set ss (take i order))))"

text \<open>A step whose command matches one of the banned patterns.\<close>

definition banned_step :: "Step \<Rightarrow> bool" where
  "banned_step s \<longleftrightarrow> (\<exists>c. Step.run s = Some c \<and> (\<exists>p \<in> set BANNED_PATTERNS. re_search p c))"

section \<open>The bytecode document and the notifier (\<^verbatim>\<open>flowrun/vm.py\<close>)\<close>

text \<open>
  A notifier of the bytecode, the dict with the keys \<^verbatim>\<open>name\<close>, \<^verbatim>\<open>email\<close>, \<^verbatim>\<open>subject\<close> and
  \<^verbatim>\<open>body\<close>, and the bytecode document, the dict with the keys \<^verbatim>\<open>workflow\<close>, \<^verbatim>\<open>steps\<close> and
  \<^verbatim>\<open>notifies\<close>.  The field names carry a prefix because the names of the keys are taken
  by the records of the syntax tree.
\<close>

record notify_raw =
  n_name :: "string field"
  n_email :: "string field"
  n_subject :: "string field"
  n_body :: "string field"

record bytecode =
  bc_workflow :: "string field"
  bc_steps :: "instr list field"
  bc_notifies :: "notify_raw list field"

text \<open>\<^verbatim>\<open>self.notifies_raw = bytecode.get("notifies", []) or []\<close>\<close>

definition notifies_raw :: "bytecode \<Rightarrow> notify_raw list" where
  "notifies_raw b = (case bc_notifies b of Val l \<Rightarrow> l | _ \<Rightarrow> [])"

text \<open>
  \<^verbatim>\<open>self.notify_map = {n.get("name"): n for n in self.notifies_raw}\<close>: the key is \<open>None\<close>
  for a notifier with no name, and a later notifier replaces an earlier one of the same
  name.
\<close>

definition notify_map :: "notify_raw list \<Rightarrow> string option \<rightharpoonup> notify_raw" where
  "notify_map ns = foldl (\<lambda>m n. m(dict_get (n_name n) \<mapsto> n)) Map.empty ns"

text \<open>What an f-string shows of an optional string: the string, or \<^verbatim>\<open>None\<close>.\<close>

fun py_str :: "string option \<Rightarrow> string" where
  "py_str None = ''None''"
| "py_str (Some s) = s"

text \<open>
  \<^verbatim>\<open>body.replace("${failed_step}", failed_step)\<close>: every occurrence of the token, found
  from left to right without overlap, is replaced; the replacement is not searched again.
\<close>

definition failed_step_token :: string where
  "failed_step_token = ''${failed_step}''"

function replace_token :: "string \<Rightarrow> string \<Rightarrow> string" where
  "replace_token new [] = []"
| "replace_token new (c # t) =
     (if take (length failed_step_token) (c # t) = failed_step_token
      then new @ replace_token new (drop (length failed_step_token) (c # t))
      else c # replace_token new t)"
  by pat_completeness auto
termination
  by (relation "measure (\<lambda>(new, s). length s)") (auto simp: failed_step_token_def)

text \<open>
  A text file opened with \<^verbatim>\<open>encoding="utf-8"\<close> refuses a string that holds a surrogate
  code point (U+D800 to U+DFFF): \<^verbatim>\<open>write\<close> raises \<^verbatim>\<open>UnicodeEncodeError\<close> and writes
  nothing.  In the encoding a surrogate is the byte ED followed by a byte from A0.
\<close>

fun has_surrogate :: "string \<Rightarrow> bool" where
  "has_surrogate (a # b # t) = ((a = CHR 0xED \<and> 0xA0 \<le> byte b) \<or> has_surrogate (b # t))"
| "has_surrogate _ = False"

text \<open>
  \<^verbatim>\<open>ParallelVM._emit_notify\<close>.  The log file is the text written to it so far; \<open>timestamp\<close>
  is the value of \<^verbatim>\<open>time.strftime("%Y-%m-%d %H:%M:%S", time.localtime())\<close>; \<open>can_write\<close>
  tells whether creating the directory and opening the file for appending succeed:
  otherwise the call raises \<^verbatim>\<open>OSError\<close> and the file is as before.  A notifier found
  under the name holds the key \<^verbatim>\<open>name\<close>, so the test \<^verbatim>\<open>if n\<close> is true for it.  The text
  is the argument of \<^verbatim>\<open>write\<close>, before the line feed becomes the line separator of the
  platform.
\<close>

datatype io_error = OSError | UnicodeEncodeError

definition notify_record :: "string \<Rightarrow> string \<Rightarrow> notify_raw \<Rightarrow> string option \<Rightarrow> string" where
  "notify_record timestamp notify_name n failed_step =
     (let email = dict_get (n_email n);
          subject = dict_get (n_subject n);
          body = dict_get (n_body n);
          body' = (case (failed_step, body) of
                     (Some f, Some b) \<Rightarrow> if f \<noteq> [] \<and> b \<noteq> [] then Some (replace_token f b) else body
                   | _ \<Rightarrow> body)
      in ''['' @ timestamp @ ''] NOTIFY '' @ notify_name @ '' -> email: '' @ py_str email
         @ '' subject: '' @ py_str subject @ '' body: '' @ py_str body' @ [CHR 0x0A])"

definition missing_record :: "string \<Rightarrow> string \<Rightarrow> string option \<Rightarrow> string" where
  "missing_record timestamp notify_name failed_step =
     ''['' @ timestamp @ ''] NOTIFY-MISSING '' @ notify_name @ '' for failed_step=''
       @ py_str failed_step @ [CHR 0x0A]"

definition ParallelVM_emit_notify ::
    "notify_raw list \<Rightarrow> bool \<Rightarrow> string \<Rightarrow> string \<Rightarrow> string option \<Rightarrow> string \<Rightarrow> io_error + string" where
  "ParallelVM_emit_notify ns can_write timestamp notify_name failed_step log =
     (let r = (case notify_map ns (Some notify_name) of
                 Some n \<Rightarrow> notify_record timestamp notify_name n failed_step
               | None \<Rightarrow> missing_record timestamp notify_name failed_step)
      in if \<not> can_write then Inl OSError
         else if has_surrogate r then Inl UnicodeEncodeError
         else Inr (log @ r))"

text \<open>The line breaks of a text: line feed and carriage return.\<close>

definition line_breaks :: "string \<Rightarrow> nat" where
  "line_breaks t = length (filter (\<lambda>c. c = CHR 0x0A \<or> c = CHR 0x0D) t)"

definition one_line :: "string option \<Rightarrow> bool" where
  "one_line v = (line_breaks (py_str v) = 0)"

section \<open>Properties of the timeout parser\<close>

lemma rstrip_s_append:
  assumes "ds \<noteq> []" "last ds \<noteq> CHR ''s''"
  shows "rstrip_s (ds @ replicate k (CHR ''s'')) = ds"
proof -
  have "rev ds \<noteq> []" "hd (rev ds) \<noteq> CHR ''s''" using assms by (simp_all add: hd_rev)
  then have "dropWhile (\<lambda>c. c = CHR ''s'') (rev ds) = rev ds"
    by (cases "rev ds") auto
  then show ?thesis
    by (simp add: rstrip_s_def dropWhile_append)
qed

lemma rstrip_s_decomp: "\<exists>k. t = rstrip_s t @ replicate k (CHR ''s'')"
proof -
  let ?P = "\<lambda>c. c = CHR ''s''"
  define tk where "tk = takeWhile ?P (rev t)"
  have "rev t = tk @ dropWhile ?P (rev t)" by (simp add: tk_def)
  then have "rev (rev t) = rev (tk @ dropWhile ?P (rev t))" by simp
  then have t: "t = rev (dropWhile ?P (rev t)) @ rev tk" by simp
  have "\<forall>c\<in>set tk. c = CHR ''s''" unfolding tk_def by (auto dest: set_takeWhileD)
  then have "replicate (length tk) (CHR ''s'') = tk" by (rule replicate_length_same)
  then have "rev tk = replicate (length tk) (CHR ''s'')" by (metis rev_replicate)
  with t show ?thesis unfolding rstrip_s_def by metis
qed

lemma is_digit_props:
  assumes "is_digit c"
  shows "c \<noteq> CHR ''s''" "c \<noteq> CHR ''_''" "c \<noteq> CHR ''+''" "c \<noteq> CHR ''-''" "\<not> c_isspace c"
  using assms by (auto simp: is_digit_def c_isspace_def)

lemma is_digit_byte: "is_digit c \<longleftrightarrow> 48 \<le> byte c \<and> byte c \<le> 57"
  by (simp add: is_digit_def byte_def less_eq_char_def)

lemma double_underscore_digits:
  "\<forall>c\<in>set ds. is_digit c \<Longrightarrow> \<not> double_underscore ds"
  by (induction ds rule: double_underscore.induct) (auto dest: is_digit_props)

lemma long_from_string_digits:
  assumes ne: "ds \<noteq> []" and dig: "\<forall>c\<in>set ds. is_digit c"
  shows "long_from_string m ds =
           (if 640 < length ds \<and> 0 < m \<and> m < length ds then None else Some (dec_val ds))"
proof -
  obtain c r where ds: "ds = c # r" using ne by (cases ds) auto
  have c: "is_digit c" using dig ds by simp
  have l: "is_digit (last ds)" using dig ne by simp
  have u: "dropWhile c_isspace ds = ds" using c ds is_digit_props(5) by simp
  have tw: "takeWhile (\<lambda>c. is_digit c \<or> c = CHR ''_'') ds = ds"
    using dig by (simp add: takeWhile_eq_all_conv)
  have dw: "dropWhile (\<lambda>c. is_digit c \<or> c = CHR ''_'') ds = []" using dig by simp
  have f: "filter is_digit ds = ds" using dig by simp
  have v: "(case ds of [] \<Rightarrow> [] | c # r \<Rightarrow> if c = CHR ''+'' \<or> c = CHR ''-'' then r else ds) = ds"
    using ds c is_digit_props by auto
  have n: "(case ds of [] \<Rightarrow> False | c # _ \<Rightarrow> c = CHR ''-'') = False"
    using ds c is_digit_props by auto
  have h: "hd ds \<noteq> CHR ''_''" using ds c is_digit_props by auto
  have la: "last ds \<noteq> CHR ''_''" using l is_digit_props by auto
  show ?thesis
    unfolding long_from_string_def Let_def u v n tw dw f
    using ne h la double_underscore_digits[OF dig] by auto
qed

lemma utf8_decode_ascii:
  "\<forall>c\<in>set ds. byte c < 0x80 \<Longrightarrow> utf8_decode ds = Some (map byte ds)"
  by (induction ds) auto

lemma to_ascii_ascii:
  "\<forall>c\<in>set ds. byte c < 127 \<Longrightarrow> to_ascii dec (map byte ds) = ds"
  by (induction ds) (auto simp: byte_def)

lemma py_int_digits:
  assumes ne: "ds \<noteq> []" and dig: "\<forall>c\<in>set ds. is_digit c"
  shows "py_int ip ds =
           (if 640 < length ds \<and> 0 < int_max_str_digits ip \<and> int_max_str_digits ip < length ds
            then None else Some (dec_val ds))"
proof -
  have a: "\<forall>c\<in>set ds. byte c < 0x80" using dig by (auto simp: is_digit_byte)
  have b: "\<forall>c\<in>set ds. byte c < 127" using dig by (auto simp: is_digit_byte)
  show ?thesis
    unfolding py_int_def utf8_decode_ascii[OF a]
    by (simp add: to_ascii_ascii[OF b] long_from_string_digits[OF ne dig])
qed

lemma parse_timeout_digits:
  assumes ne: "ds \<noteq> []" and dig: "\<forall>c\<in>set ds. is_digit c"
  shows "parse_timeout ip (Some (ds @ replicate k (CHR ''s''))) =
           (if 640 < length ds \<and> 0 < int_max_str_digits ip \<and> int_max_str_digits ip < length ds
            then None else Some (dec_val ds))"
proof -
  have "last ds \<noteq> CHR ''s''" using ne dig is_digit_props(1) by auto
  then have "rstrip_s (ds @ replicate k (CHR ''s'')) = ds"
    using ne by (rule rstrip_s_append[rotated])
  then show ?thesis using ne py_int_digits[OF ne dig] by (simp add: parse_timeout_def)
qed

lemma long_from_string_Some_chars:
  assumes "long_from_string m x = Some n"
  shows "(\<exists>c\<in>set x. is_digit c) \<and> (\<forall>c\<in>set x. int_char c)"
proof -
  let ?D = "\<lambda>c. is_digit c \<or> c = CHR ''_''"
  define u where "u = dropWhile c_isspace x"
  define v where "v = (case u of [] \<Rightarrow> [] | c # r \<Rightarrow> if c = CHR ''+'' \<or> c = CHR ''-'' then r else u)"
  define body where "body = takeWhile ?D v"
  define rest where "rest = dropWhile ?D v"
  from assms have ok: "body \<noteq> []" "hd body \<noteq> CHR ''_''" "dropWhile c_isspace rest = []"
    unfolding long_from_string_def Let_def u_def[symmetric] v_def[symmetric] body_def[symmetric]
      rest_def[symmetric]
    by (auto split: if_splits)
  have b: "\<forall>c\<in>set body. ?D c" unfolding body_def by (auto dest: set_takeWhileD)
  have hb: "hd body \<in> set body" using ok(1) by simp
  with b ok(2) have hd: "is_digit (hd body)" by blast
  have r: "\<forall>c\<in>set rest. c_isspace c" using ok(3) by (simp add: dropWhile_eq_Nil_conv)
  have v: "v = body @ rest" by (simp add: body_def rest_def)
  have vs: "\<forall>c\<in>set v. int_char c" using b r v by (auto simp: int_char_def)
  have us: "\<forall>c\<in>set u. int_char c"
    using vs unfolding v_def by (cases u) (auto simp: int_char_def split: if_splits)
  have x: "x = takeWhile c_isspace x @ u" by (simp add: u_def)
  have "\<forall>c\<in>set (takeWhile c_isspace x). int_char c"
    by (auto dest: set_takeWhileD simp: int_char_def)
  with us x have all: "\<forall>c\<in>set x. int_char c"
    by (metis Un_iff set_append)
  have "set body \<subseteq> set v" using v by simp
  moreover have "set v \<subseteq> set u" unfolding v_def by (cases u) auto
  moreover have "set u \<subseteq> set x" unfolding u_def by (simp add: set_dropWhileD subsetI)
  ultimately have "hd body \<in> set x" using hb by blast
  with hd all show ?thesis by blast
qed

lemma utf8_next_append:
  assumes "utf8_next x = Some (c, r)"
  shows "utf8_next (x @ y) = Some (c, r @ y)"
proof (cases x)
  case Nil
  with assms show ?thesis by simp
next
  case (Cons a u)
  with assms show ?thesis
    by (simp split: if_split_asm list.split_asm)
qed

lemma utf8_decode_append:
  "utf8_decode x = Some a \<Longrightarrow> utf8_decode (x @ y) = map_option ((@) a) (utf8_decode y)"
proof (induction x arbitrary: a rule: utf8_decode.induct)
  case 1
  then show ?case by (simp add: option.map_ident)
next
  case (2 b t)
  from "2.prems" obtain c r where n: "utf8_next (b # t) = Some (c, r)"
    by (auto simp del: utf8_next.simps split: option.splits)
  with "2.prems" obtain a' where a': "utf8_decode r = Some a'" "a = c # a'"
    by (auto simp del: utf8_next.simps)
  have "utf8_next (b # (t @ y)) = Some (c, r @ y)" using utf8_next_append[OF n, of y] by simp
  moreover have "utf8_decode (r @ y) = map_option ((@) a') (utf8_decode y)"
    using "2.IH"[OF n refl a'(1)] .
  ultimately show ?case using a'(2)
    by (simp del: utf8_next.simps add: option.map_comp comp_def)
qed

lemma utf8_decode_s: "utf8_decode (replicate k (CHR ''s'')) = Some (replicate k 115)"
  by (induction k) (auto simp: byte_def)

lemma char_of_small:
  fixes c :: nat
  assumes "c < 127"
  shows "is_digit (char_of c) \<longleftrightarrow> 48 \<le> c \<and> c \<le> 57"
    and "c_isspace (char_of c) \<longleftrightarrow> c \<in> set [0x09, 0x0A, 0x0B, 0x0C, 0x0D, 0x20]"
    and "char_of c = CHR ''+'' \<longleftrightarrow> c = 43"
    and "char_of c = CHR ''-'' \<longleftrightarrow> c = 45"
    and "char_of c = CHR ''_'' \<longleftrightarrow> c = 95"
proof -
  have m: "c mod 256 = c" using assms by simp
  have e: "\<And>d. char_of c = d \<longleftrightarrow> c = of_char d"
    using m by (metis of_char_of char_of_char)
  show "is_digit (char_of c) \<longleftrightarrow> 48 \<le> c \<and> c \<le> 57"
    by (simp add: is_digit_byte byte_def m)
  show "c_isspace (char_of c) \<longleftrightarrow> c \<in> set [0x09, 0x0A, 0x0B, 0x0C, 0x0D, 0x20]"
    by (auto simp: c_isspace_def e)
  show "char_of c = CHR ''+'' \<longleftrightarrow> c = 43" "char_of c = CHR ''-'' \<longleftrightarrow> c = 45"
    "char_of c = CHR ''_'' \<longleftrightarrow> c = 95"
    by (simp_all add: e)
qed

lemma int_char_small: "c < 127 \<Longrightarrow> int_char (char_of c) \<Longrightarrow> int_cp dec c"
  by (auto simp: int_char_def int_cp_def decimal_cp_def space_cp_def char_of_small)

lemma not_int_char_question: "\<not> int_char CHR ''?''" "\<not> is_digit CHR ''?''" "\<not> is_digit CHR '' ''"
  by (simp_all add: int_char_def is_digit_def c_isspace_def)

lemma to_ascii_int_chars:
  "\<forall>ch\<in>set (to_ascii dec cps). int_char ch \<Longrightarrow> \<forall>c\<in>set cps. int_cp dec c"
proof (induction cps)
  case Nil
  then show ?case by simp
next
  case (Cons c r)
  show ?case
  proof (cases "c < 127")
    case True
    with Cons show ?thesis by (auto intro: int_char_small)
  next
    case False
    show ?thesis
    proof (cases "uni_isspace c")
      case True
      with False Cons show ?thesis by (auto simp: int_cp_def space_cp_def)
    next
      case ns: False
      show ?thesis
      proof (cases "dec c")
        case None
        with False ns Cons.prems show ?thesis by (simp add: not_int_char_question)
      next
        case (Some d)
        with False ns Cons show ?thesis by (auto simp: int_cp_def decimal_cp_def)
      qed
    qed
  qed
qed

lemma to_ascii_has_digit:
  "\<exists>ch\<in>set (to_ascii dec cps). is_digit ch \<Longrightarrow> \<exists>c\<in>set cps. decimal_cp dec c"
proof (induction cps)
  case Nil
  then show ?case by simp
next
  case (Cons c r)
  show ?case
  proof (cases "c < 127")
    case True
    with Cons.prems have "is_digit (char_of c) \<or> (\<exists>ch\<in>set (to_ascii dec r). is_digit ch)"
      by simp
    then show ?thesis
    proof
      assume "is_digit (char_of c)"
      with True have "decimal_cp dec c" by (simp add: decimal_cp_def char_of_small)
      then show ?thesis by simp
    next
      assume "\<exists>ch\<in>set (to_ascii dec r). is_digit ch"
      from Cons.IH[OF this] show ?thesis by auto
    qed
  next
    case False
    show ?thesis
    proof (cases "uni_isspace c")
      case True
      with False Cons show ?thesis by (auto simp: not_int_char_question)
    next
      case ns: False
      show ?thesis
      proof (cases "dec c")
        case None
        with False ns Cons.prems show ?thesis by (simp add: not_int_char_question)
      next
        case (Some d)
        with False show ?thesis by (simp add: decimal_cp_def)
      qed
    qed
  qed
qed

lemma py_int_Some_chars:
  assumes "py_int ip x = Some n"
  shows "\<exists>cps. utf8_decode x = Some cps \<and> (\<exists>c\<in>set cps. decimal_cp (to_decimal ip) c) \<and>
           (\<forall>c\<in>set cps. int_cp (to_decimal ip) c)"
proof -
  from assms obtain cps where d: "utf8_decode x = Some cps"
    and l: "long_from_string (int_max_str_digits ip) (to_ascii (to_decimal ip) cps) = Some n"
    by (auto simp: py_int_def split: option.splits)
  from long_from_string_Some_chars[OF l] to_ascii_has_digit to_ascii_int_chars d
  show ?thesis by blast
qed

lemma parse_timeout_Some_chars:
  assumes "parse_timeout ip (Some t) = Some n"
  shows "\<exists>cps. utf8_decode t = Some cps \<and> (\<exists>c\<in>set cps. decimal_cp (to_decimal ip) c) \<and>
           (\<forall>c\<in>set cps. int_cp (to_decimal ip) c \<or> c = 115)"
proof -
  from assms have p: "py_int ip (rstrip_s t) = Some n"
    by (auto simp: parse_timeout_def split: if_splits)
  obtain k where t: "t = rstrip_s t @ replicate k (CHR ''s'')" using rstrip_s_decomp by blast
  from py_int_Some_chars[OF p] obtain cps where
    d: "utf8_decode (rstrip_s t) = Some cps"
    and g: "\<exists>c\<in>set cps. decimal_cp (to_decimal ip) c"
    and a: "\<forall>c\<in>set cps. int_cp (to_decimal ip) c"
    by blast
  have "utf8_decode (rstrip_s t @ replicate k (CHR ''s'')) = Some (cps @ replicate k 115)"
    using utf8_decode_append[OF d, of "replicate k (CHR ''s'')"] by (simp add: utf8_decode_s)
  then have "utf8_decode t = Some (cps @ replicate k 115)" using t by simp
  moreover have "\<exists>c\<in>set (cps @ replicate k 115). decimal_cp (to_decimal ip) c" using g by auto
  moreover have "\<forall>c\<in>set (cps @ replicate k 115). int_cp (to_decimal ip) c \<or> c = 115"
    using a by auto
  ultimately show ?thesis by blast
qed

lemma char_of_3: "char_of (51::nat) = CHR ''3''"
  by code_simp

lemma char_of_5: "char_of (53::nat) = CHR ''5''"
  by code_simp


lemma parse_timeout_signed: "parse_timeout cpython_3_11 (Some ''-5s'') = Some (- 5)"
  by code_simp

lemma parse_timeout_underscore: "parse_timeout cpython_3_11 (Some '' 1_0s'') = Some 10"
  by code_simp

lemma long_from_string_sp5: "long_from_string 4300 '' 5'' = Some 5"
  by code_simp

lemma long_from_string_3: "long_from_string 4300 ''3'' = Some 3"
  by code_simp

lemma parse_timeout_nbsp:
  "parse_timeout cpython_3_11 (Some [CHR 0xC2, CHR 0xA0, CHR ''5'', CHR ''s'']) = Some 5"
proof -
  have d: "utf8_decode [CHR 0xC2, CHR 0xA0, CHR ''5''] = Some [0xA0, 53]"
    by (simp add: byte_def is_cont_def cont_bits_def)
  have "py_int cpython_3_11 [CHR 0xC2, CHR 0xA0, CHR ''5''] = Some 5"
    unfolding py_int_def d
    by (simp add: cpython_3_11_def uni_isspace_def char_of_5 long_from_string_sp5)
  then show ?thesis by (simp add: parse_timeout_def rstrip_s_def)
qed

lemma parse_timeout_arabic:
  "parse_timeout cpython_3_11 (Some [CHR 0xD9, CHR 0xA3, CHR ''s'']) = Some 3"
proof -
  have d: "utf8_decode [CHR 0xD9, CHR 0xA3] = Some [0x663]"
    by (simp add: byte_def is_cont_def cont_bits_def)
  have e: "unicode_14_decimal 0x663 = Some 3"
    by (simp add: unicode_14_decimal_def unicode_14_zeros_def)
  have "py_int cpython_3_11 [CHR 0xD9, CHR 0xA3] = Some 3"
    unfolding py_int_def d
    by (simp add: cpython_3_11_def uni_isspace_def e char_of_3 long_from_string_3)
  then show ?thesis by (simp add: parse_timeout_def rstrip_s_def)
qed

lemma parse_timeout_long:
  "parse_timeout cpython_3_11 (Some (replicate 4301 (CHR ''1'') @ ''s'')) = None"
proof -
  have "parse_timeout cpython_3_11 (Some (replicate 4301 (CHR ''1'') @ replicate 1 (CHR ''s''))) = None"
    by (subst parse_timeout_digits) (simp_all add: is_digit_def cpython_3_11_def)
  then show ?thesis by simp
qed

text \<open>
  C10, as the claim states it, fails.  On CPython 3.11 with its defaults
  \<^verbatim>\<open>_parse_timeout\<close> returns an integer for values that are not a digit string followed
  by \<open>s\<close> characters, because \<^verbatim>\<open>int\<close> accepts more than digit strings: \<open>-5\<close> for \<^verbatim>\<open>"-5s"\<close>
  (a sign), \<open>10\<close> for \<^verbatim>\<open>" 1_0s"\<close> (white space and an underscore), \<open>5\<close> for a no-break
  space followed by \<^verbatim>\<open>"5s"\<close> and \<open>3\<close> for the Arabic-Indic digit three followed by \<open>s\<close>.
  And it returns \<open>None\<close> for a digit string followed by \<open>s\<close>, when the string has 4301
  digits: \<^verbatim>\<open>int\<close> refuses to convert more than 4300.
\<close>

theorem parse_timeout_counterexample:
  "parse_timeout cpython_3_11 (Some ''-5s'') = Some (- 5) \<and>
   parse_timeout cpython_3_11 (Some '' 1_0s'') = Some 10 \<and>
   parse_timeout cpython_3_11 (Some [CHR 0xC2, CHR 0xA0, CHR ''5'', CHR ''s'']) = Some 5 \<and>
   parse_timeout cpython_3_11 (Some [CHR 0xD9, CHR 0xA3, CHR ''s'']) = Some 3 \<and>
   parse_timeout cpython_3_11 (Some (replicate 4301 (CHR ''1'') @ ''s'')) = None"
  using parse_timeout_signed parse_timeout_underscore parse_timeout_nbsp parse_timeout_arabic
    parse_timeout_long
  by blast

text \<open>
  C10, amended.  \<^verbatim>\<open>_parse_timeout\<close> never raises (it is a total function into an
  option).  It returns \<open>None\<close> for \<open>None\<close> and for the empty string.  For every
  non-empty string of ASCII digits followed by zero or more \<open>s\<close> characters it returns
  that integer, unless the digit string is longer than 640 digits and than the
  interpreter's conversion limit, when it returns \<open>None\<close>.  Whenever it returns an
  integer, the value contains a decimal digit and consists only of decimal digits
  (ASCII or not), white space, signs, underscores and \<open>s\<close>; so a value such as \<^verbatim>\<open>"5x"\<close>
  gives \<open>None\<close>, while the values that Python's \<^verbatim>\<open>int\<close> accepts after the trailing \<open>s\<close>
  are removed give an integer, possibly a negative one.
\<close>

theorem parse_timeout_amended:
  "parse_timeout ip None = None \<and> parse_timeout ip (Some []) = None \<and>
   (ds \<noteq> [] \<and> (\<forall>c\<in>set ds. is_digit c)
      \<longrightarrow> parse_timeout ip (Some (ds @ replicate k (CHR ''s''))) =
            (if 640 < length ds \<and> 0 < int_max_str_digits ip \<and> int_max_str_digits ip < length ds
             then None else Some (dec_val ds))) \<and>
   (parse_timeout ip (Some t) = Some n
      \<longrightarrow> (\<exists>cps. utf8_decode t = Some cps \<and>
                 (\<exists>c\<in>set cps. decimal_cp (to_decimal ip) c) \<and>
                 (\<forall>c\<in>set cps. int_cp (to_decimal ip) c \<or> c = 115))) \<and>
   parse_timeout ip (Some ''5x'') = None"
proof (intro conjI impI)
  show "parse_timeout ip None = None" "parse_timeout ip (Some []) = None"
    by (simp_all add: parse_timeout_def)
  show "parse_timeout ip (Some ''5x'') = None"
    by (simp add: parse_timeout_def rstrip_s_def py_int_def byte_def long_from_string_def
        c_isspace_def is_digit_def char_of_def)
next
  assume "ds \<noteq> [] \<and> (\<forall>c\<in>set ds. is_digit c)"
  then show "parse_timeout ip (Some (ds @ replicate k (CHR ''s''))) =
            (if 640 < length ds \<and> 0 < int_max_str_digits ip \<and> int_max_str_digits ip < length ds
             then None else Some (dec_val ds))"
    using parse_timeout_digits by blast
next
  assume a: "parse_timeout ip (Some t) = Some n"
  show "\<exists>cps. utf8_decode t = Some cps \<and>
                 (\<exists>c\<in>set cps. decimal_cp (to_decimal ip) c) \<and>
                 (\<forall>c\<in>set cps. int_cp (to_decimal ip) c \<or> c = 115)"
    using parse_timeout_Some_chars[OF a] .
qed

theorem parse_timeout_amended_witness:
  "parse_timeout cpython_3_11 (Some ''30s'') = Some 30 \<and>
   parse_timeout cpython_3_11 (Some [CHR 0xD9, CHR 0xA3, CHR ''s'']) = Some 3 \<and>
   (\<exists>cps. utf8_decode [CHR 0xD9, CHR 0xA3, CHR ''s''] = Some cps \<and>
          (\<exists>c\<in>set cps. decimal_cp (to_decimal cpython_3_11) c) \<and>
          (\<forall>c\<in>set cps. int_cp (to_decimal cpython_3_11) c \<or> c = 115))"
proof -
  have d: "''30'' \<noteq> [] \<and> (\<forall>c\<in>set ''30''. is_digit c)"
    by (simp add: is_digit_def)
  have e: "parse_timeout cpython_3_11 (Some [CHR 0xD9, CHR 0xA3, CHR ''s'']) = Some 3"
    by (rule parse_timeout_arabic)
  have v: "dec_val ''30'' = 30" by (simp add: dec_val_def digit_val_def)
  from parse_timeout_amended[of cpython_3_11 "''30''" "Suc 0" "[CHR 0xD9, CHR 0xA3, CHR ''s'']" 3]
    d e v
  show ?thesis by simp
qed

section \<open>Properties of the worker body\<close>










section \<open>Properties of Kahn's algorithm\<close>

lemma map_fst_update_present:
  "k \<in> set (map fst al) \<Longrightarrow> map fst (AList.update k v al) = map fst al"
  by (simp add: update_keys)

lemma relax_effect:
  assumes "consistent graph indeg" "set ms \<subseteq> set (map fst graph)" "distinct ms"
  shows "\<exists>graph' indeg'.
           relax n ms (graph, indeg, q)
             = Inr (graph', indeg', q @ filter (\<lambda>m. map_of graph m = Some {n}) ms) \<and>
           consistent graph' indeg' \<and> map fst graph' = map fst graph \<and>
           (\<forall>m. map_of graph' m =
                 (if m \<in> set ms then map_option (\<lambda>g. g - {n}) (map_of graph m) else map_of graph m))"
  using assms
proof (induction ms arbitrary: graph indeg q)
  case Nil
  then show ?case by simp
next
  case (Cons m ms)
  from Cons.prems have mk: "m \<in> set (map fst graph)" and ms: "set ms \<subseteq> set (map fst graph)"
    and dm: "m \<notin> set ms" "distinct ms" by auto
  from mk obtain g where g: "map_of graph m = Some g"
    by (metis map_of_eq_None_iff not_Some_eq set_map)
  from Cons.prems(1) g have fg: "finite g" and ig: "map_of indeg m = Some (int (card g))"
    by (auto simp: consistent_def)
  show ?case
  proof (cases "n \<in> g")
    case False
    then have ne: "g \<noteq> {n}" by auto
    from Cons.IH[OF Cons.prems(1) ms dm(2), of q] obtain graph' indeg' where
      r: "relax n ms (graph, indeg, q) = Inr (graph', indeg', q @ filter (\<lambda>m. map_of graph m = Some {n}) ms)"
      and c: "consistent graph' indeg'" and k: "map fst graph' = map fst graph"
      and l: "\<forall>x. map_of graph' x = (if x \<in> set ms then map_option (\<lambda>g. g - {n}) (map_of graph x) else map_of graph x)"
      by blast
    have e1: "relax n (m # ms) (graph, indeg, q) = relax n ms (graph, indeg, q)"
      using g False by simp
    have e2: "filter (\<lambda>m. map_of graph m = Some {n}) (m # ms) = filter (\<lambda>m. map_of graph m = Some {n}) ms"
      using g ne by simp
    have e3: "\<forall>x. map_of graph' x = (if x \<in> set (m # ms) then map_option (\<lambda>g. g - {n}) (map_of graph x) else map_of graph x)"
      using l g False by auto
    from r e1 e2 have "relax n (m # ms) (graph, indeg, q)
        = Inr (graph', indeg', q @ filter (\<lambda>x. map_of graph x = Some {n}) (m # ms))" by simp
    with c k e3 show ?thesis
      by (intro exI[of _ graph'] exI[of _ indeg']) simp
  next
    case True
    let ?graph = "AList.update m (g - {n}) graph"
    let ?indeg = "AList.update m (int (card g) - 1) indeg"
    let ?q = "if int (card g) - 1 = 0 then q @ [m] else q"
    have cpos: "card g \<ge> 1" using True fg by (metis One_nat_def Suc_leI card_gt_0_iff empty_iff)
    have cd: "int (card (g - {n})) = int (card g) - 1"
      using True fg cpos by (simp add: card_Diff_singleton)
    have one: "int (card g) - 1 = 0 \<longleftrightarrow> g = {n}"
    proof
      assume "int (card g) - 1 = 0"
      then have "card g = 1" by simp
      then show "g = {n}" using True by (metis card_1_singletonE singletonD)
    next
      assume "g = {n}" then show "int (card g) - 1 = 0" by simp
    qed
    have kg: "map fst ?graph = map fst graph" using mk by (rule map_fst_update_present)
    have mi: "m \<in> set (map fst indeg)" using mk Cons.prems(1) by (simp add: consistent_def)
    have ki: "map fst ?indeg = map fst indeg" using mi by (rule map_fst_update_present)
    have cons': "consistent ?graph ?indeg"
      unfolding consistent_def
    proof (intro conjI allI impI)
      show "distinct (map fst ?graph)" using kg Cons.prems(1) by (simp add: consistent_def)
      show "map fst ?indeg = map fst ?graph" using kg ki Cons.prems(1) by (simp add: consistent_def)
    next
      fix x h assume h: "map_of ?graph x = Some h"
      show "finite h" using h fg Cons.prems(1)
        by (auto simp: update_conv' consistent_def split: if_splits)
      show "map_of ?indeg x = Some (int (card h))" using h cd Cons.prems(1)
        by (auto simp: update_conv' consistent_def split: if_splits)
    qed
    have ms': "set ms \<subseteq> set (map fst ?graph)" using ms kg by simp
    from Cons.IH[OF cons' ms' dm(2), of ?q] obtain graph' indeg' where
      r: "relax n ms (?graph, ?indeg, ?q) = Inr (graph', indeg', ?q @ filter (\<lambda>x. map_of ?graph x = Some {n}) ms)"
      and c: "consistent graph' indeg'" and k: "map fst graph' = map fst ?graph"
      and l: "\<forall>x. map_of graph' x = (if x \<in> set ms then map_option (\<lambda>g. g - {n}) (map_of ?graph x) else map_of ?graph x)"
      by blast
    have step: "relax n (m # ms) (graph, indeg, q) = relax n ms (?graph, ?indeg, ?q)"
      using g True ig by simp
    have same: "\<And>x. x \<in> set ms \<Longrightarrow> map_of ?graph x = map_of graph x"
      using dm(1) by (auto simp: update_conv')
    have f1: "filter (\<lambda>x. map_of ?graph x = Some {n}) ms = filter (\<lambda>x. map_of graph x = Some {n}) ms"
      by (rule filter_cong) (simp_all add: same)
    have f2: "?q @ filter (\<lambda>x. map_of graph x = Some {n}) ms
            = q @ filter (\<lambda>x. map_of graph x = Some {n}) (m # ms)"
      using g one by auto
    have l': "\<forall>x. map_of graph' x = (if x \<in> set (m # ms) then map_option (\<lambda>g. g - {n}) (map_of graph x) else map_of graph x)"
      using l g dm(1) by (auto simp: update_conv')
    from r step f1 f2 have "relax n (m # ms) (graph, indeg, q)
        = Inr (graph', indeg', q @ filter (\<lambda>x. map_of graph x = Some {n}) (m # ms))" by simp
    with c k kg l' show ?thesis
      by (intro exI[of _ graph'] exI[of _ indeg']) simp
  qed
qed

lemma finite_ready_set: "finite (ready_set ss emitted)"
  by (simp add: ready_set_def)

lemma ready_set_snoc:
  assumes n: "n \<in> ready_set ss order" and top: "\<forall>m \<in> set order. deps_of ss m \<subseteq> set order"
  shows "ready_set ss (order @ [n])
          = (ready_set ss order - {n}) \<union>
            {m \<in> set (map Step.name ss). deps_of ss m - set order = {n}}"
proof (intro equalityI subsetI)
  fix m assume m: "m \<in> ready_set ss (order @ [n])"
  then have mN: "m \<in> set (map Step.name ss)" and mo: "m \<notin> set order" "m \<noteq> n"
    and d: "deps_of ss m \<subseteq> insert n (set order)" by (auto simp: ready_set_def)
  have no: "n \<notin> set order" using n by (simp add: ready_set_def)
  show "m \<in> (ready_set ss order - {n}) \<union> {m \<in> set (map Step.name ss). deps_of ss m - set order = {n}}"
  proof (cases "n \<in> deps_of ss m")
    case True
    with d no have "deps_of ss m - set order = {n}" by auto
    with mN show ?thesis by simp
  next
    case False
    with d have "deps_of ss m \<subseteq> set order" by auto
    with mN mo show ?thesis by (simp add: ready_set_def)
  qed
next
  fix m assume "m \<in> (ready_set ss order - {n}) \<union> {m \<in> set (map Step.name ss). deps_of ss m - set order = {n}}"
  then consider (a) "m \<in> ready_set ss order" "m \<noteq> n"
    | (b) "m \<in> set (map Step.name ss)" "deps_of ss m - set order = {n}" by auto
  then show "m \<in> ready_set ss (order @ [n])"
  proof cases
    case a
    then show ?thesis by (auto simp: ready_set_def)
  next
    case b
    have "m \<notin> set order" using top b(2) by auto
    moreover have "m \<noteq> n" using n b(2) by (auto simp: ready_set_def)
    moreover have "deps_of ss m \<subseteq> insert n (set order)" using b(2) by auto
    ultimately show ?thesis using b(1) by (simp add: ready_set_def)
  qed
qed

lemma kahn_step:
  assumes inv: "kahn_inv ss (graph, indeg, n # q, order)"
  shows "\<exists>graph' indeg' q'.
           relax n (map fst graph) (graph, indeg, q) = Inr (graph', indeg', q') \<and>
           kahn_inv ss (graph', indeg', sort q', order @ [n])"
proof -
  let ?N = "set (map Step.name ss)"
  let ?D = "deps_of ss"
  from inv have c: "consistent graph indeg" and keys: "map fst graph = map Step.name ss"
    and g: "\<forall>m \<in> ?N. map_of graph m = Some (?D m - set order)"
    and sq: "sorted (n # q)" and dq: "distinct (n # q)"
    and rq: "set (n # q) = ready_set ss order"
    and dord: "distinct order" and sub: "set order \<subseteq> ?N"
    and top: "\<forall>m \<in> set order. ?D m \<subseteq> set order"
    and mins: "\<forall>i < length order. order ! i \<in> ready_set ss (take i order) \<and>
                 order ! i = Min (ready_set ss (take i order))"
    by (auto simp: kahn_inv_def)
  have nr: "n \<in> ready_set ss order" using rq by auto
  then have nN: "n \<in> ?N" and no: "n \<notin> set order" and nd: "?D n \<subseteq> set order"
    by (auto simp: ready_set_def)
  have dk: "distinct (map fst graph)" using c by (simp add: consistent_def)
  from relax_effect[OF c subset_refl dk, of n q] obtain graph' indeg' where
    r: "relax n (map fst graph) (graph, indeg, q)
          = Inr (graph', indeg', q @ filter (\<lambda>m. map_of graph m = Some {n}) (map fst graph))"
    and c': "consistent graph' indeg'" and keys': "map fst graph' = map fst graph"
    and l: "\<forall>m. map_of graph' m =
              (if m \<in> set (map fst graph) then map_option (\<lambda>g. g - {n}) (map_of graph m)
               else map_of graph m)"
    by blast
  let ?new = "filter (\<lambda>m. map_of graph m = Some {n}) (map fst graph)"
  let ?q' = "q @ ?new"
  have new_set: "set ?new = {m \<in> ?N. ?D m - set order = {n}}"
    using g keys by auto
  have q_set: "set q = ready_set ss order - {n}" using rq dq by auto
  have rs: "ready_set ss (order @ [n]) = set ?q'"
    using ready_set_snoc[OF nr top] new_set q_set by auto
  have disj: "set q \<inter> set ?new = {}"
  proof -
    { fix m assume "m \<in> set q" "m \<in> set ?new"
      then have "?D m \<subseteq> set order" "?D m - set order = {n}"
        using q_set new_set by (auto simp: ready_set_def)
      then have False by auto }
    then show ?thesis by auto
  qed
  have dq': "distinct ?q'" using dq dk disj by simp
  have g': "\<forall>m \<in> ?N. map_of graph' m = Some (?D m - set (order @ [n]))"
  proof
    fix m assume m: "m \<in> ?N"
    then have "map_of graph' m = map_option (\<lambda>g. g - {n}) (map_of graph m)"
      using l keys by simp
    also have "\<dots> = Some ((?D m - set order) - {n})" using g[rule_format, OF m] by simp
    also have "(?D m - set order) - {n} = ?D m - set (order @ [n])" by auto
    finally show "map_of graph' m = Some (?D m - set (order @ [n]))" .
  qed
  have nmin: "n = Min (ready_set ss order)"
  proof (rule sym, rule Min_eqI)
    show "finite (ready_set ss order)" by (rule finite_ready_set)
    show "n \<in> ready_set ss order" by (rule nr)
    fix y assume "y \<in> ready_set ss order"
    then have "y \<in> set (n # q)" using rq by simp
    then show "n \<le> y" using sq by auto
  qed
  have mins': "\<forall>i < length (order @ [n]).
      (order @ [n]) ! i \<in> ready_set ss (take i (order @ [n])) \<and>
      (order @ [n]) ! i = Min (ready_set ss (take i (order @ [n])))"
  proof (intro allI impI)
    fix i assume i: "i < length (order @ [n])"
    show "(order @ [n]) ! i \<in> ready_set ss (take i (order @ [n])) \<and>
          (order @ [n]) ! i = Min (ready_set ss (take i (order @ [n])))"
    proof (cases "i < length order")
      case True
      then have "order ! i \<in> ready_set ss (take i order) \<and>
                 order ! i = Min (ready_set ss (take i order))" using mins by blast
      moreover have "(order @ [n]) ! i = order ! i" "take i (order @ [n]) = take i order"
        using True by (simp_all add: nth_append)
      ultimately show ?thesis by metis
    next
      case False
      with i have "i = length order" by simp
      then show ?thesis using nmin nr by simp
    qed
  qed
  have inv': "kahn_inv ss (graph', indeg', sort ?q', order @ [n])"
    unfolding kahn_inv_def
    using c' keys' keys g' dq' rs dord no sub nN top nd mins'
    by (auto simp del: ready_set_def)
  from r inv' show ?thesis by blast
qed

lemma kahn_loop_inv:
  "kahn_inv ss st \<Longrightarrow>
   \<exists>graph indeg order. kahn_loop st = Inr order \<and> kahn_inv ss (graph, indeg, [], order)"
proof (induction st rule: kahn_loop.induct)
  case (1 graph indeg queue order)
  show ?case
  proof (cases queue)
    case Nil
    with "1.prems" show ?thesis by auto
  next
    case (Cons n q)
    from kahn_step[OF "1.prems"[unfolded Cons]] obtain graph' indeg' q' where
      r: "relax n (map fst graph) (graph, indeg, q) = Inr (graph', indeg', q')"
      and inv': "kahn_inv ss (graph', indeg', sort q', order @ [n])" by blast
    from "1.IH"[OF Cons r refl refl inv'] r Cons show ?thesis by simp
  qed
qed

lemma update_fresh: "k \<notin> fst ` set al \<Longrightarrow> AList.update k v al = al @ [(k, v)]"
  by (induction al) auto

lemma dep_graph_foldl:
  "distinct (map fst al @ map Step.name ss) \<Longrightarrow>
   foldl (\<lambda>g s. AList.update (Step.name s) (set (Step.depends_on s)) g) al ss
     = al @ map (\<lambda>s. (Step.name s, set (Step.depends_on s))) ss"
proof (induction ss arbitrary: al)
  case Nil
  then show ?case by simp
next
  case (Cons s ss)
  have fresh: "Step.name s \<notin> fst ` set al" using Cons.prems by auto
  have "distinct (map fst (al @ [(Step.name s, set (Step.depends_on s))]) @ map Step.name ss)"
    using Cons.prems by auto
  from Cons.IH[OF this] show ?case by (simp add: update_fresh[OF fresh])
qed

lemma dep_graph_distinct:
  "distinct (map Step.name ss) \<Longrightarrow>
   dep_graph ss = map (\<lambda>s. (Step.name s, set (Step.depends_on s))) ss"
  using dep_graph_foldl[of "[]" ss] by (simp add: dep_graph_def)

lemma deps_of_distinct:
  assumes "distinct (map Step.name ss)" "s \<in> set ss"
  shows "deps_of ss (Step.name s) = set (Step.depends_on s)"
  using assms
proof (induction ss)
  case Nil
  then show ?case by simp
next
  case (Cons a ss)
  show ?case
  proof (cases "s = a")
    case True
    have "filter (\<lambda>x. Step.name x = Step.name a) ss = []"
      using Cons.prems(1) by (auto simp: filter_empty_conv image_iff)
    with True show ?thesis by (simp add: deps_of_def)
  next
    case False
    with Cons.prems have s: "s \<in> set ss" and d: "distinct (map Step.name ss)" by auto
    have "Step.name a \<noteq> Step.name s" using Cons.prems(1) s by auto
    with Cons.IH[OF d s] show ?thesis by (simp add: deps_of_def)
  qed
qed

lemma deps_of_dep_rel: "d \<in> deps_of ss m \<longleftrightarrow> (d, m) \<in> dep_rel ss"
  by (auto simp: deps_of_def dep_rel_def)

lemma map_of_step_pairs:
  "distinct (map Step.name ss) \<Longrightarrow> s \<in> set ss \<Longrightarrow>
   map_of (map (\<lambda>s. (Step.name s, set (Step.depends_on s))) ss) (Step.name s)
     = Some (set (Step.depends_on s))"
  by (induction ss) (auto simp: image_iff)

lemma map_of_dep_graph:
  assumes "distinct (map Step.name ss)" "m \<in> set (map Step.name ss)"
  shows "map_of (dep_graph ss) m = Some (deps_of ss m)"
proof -
  from assms(2) obtain s where s: "s \<in> set ss" "m = Step.name s" by auto
  have "map_of (map (\<lambda>s. (Step.name s, set (Step.depends_on s))) ss) (Step.name s)
          = Some (set (Step.depends_on s))"
    using assms(1) s(1) by (rule map_of_step_pairs)
  then show ?thesis
    using dep_graph_distinct[OF assms(1)] deps_of_distinct[OF assms(1) s(1)] s(2) by simp
qed

lemma kahn_inv_init:
  assumes d: "distinct (map Step.name ss)"
  shows "kahn_inv ss (dep_graph ss, in_degrees (dep_graph ss),
                      sort (zero_indeg (in_degrees (dep_graph ss))), [])"
proof -
  let ?g = "dep_graph ss"
  let ?i = "in_degrees ?g"
  have keys: "map fst ?g = map Step.name ss"
    by (simp add: dep_graph_distinct[OF d] comp_def)
  have ikeys: "map fst ?i = map fst ?g"
    by (simp add: in_degrees_def comp_def case_prod_unfold)
  have fin: "\<And>m g. map_of ?g m = Some g \<Longrightarrow> finite g"
    using dep_graph_distinct[OF d] by (auto dest!: map_of_SomeD)
  have imap: "\<And>m. map_of ?i m = map_option (\<lambda>g. int (card g)) (map_of ?g m)"
    unfolding in_degrees_def by (simp add: map_of_map)
  have cons: "consistent ?g ?i"
    unfolding consistent_def using keys ikeys d fin imap by auto
  have zq: "set (zero_indeg ?i) = ready_set ss []"
  proof (intro equalityI subsetI)
    fix m assume "m \<in> set (zero_indeg ?i)"
    then have mi: "(m, 0) \<in> set ?i" by (auto simp: zero_indeg_def)
    then have mk: "m \<in> set (map Step.name ss)" using ikeys keys
      by (metis fst_conv image_eqI set_map)
    have di: "distinct (map fst ?i)" using ikeys keys d by simp
    from mi di have "map_of ?i m = Some 0" by simp
    then have "card (deps_of ss m) = 0"
      using imap[of m] map_of_dep_graph[OF d mk] by simp
    moreover have "finite (deps_of ss m)" by (simp add: deps_of_def)
    ultimately have "deps_of ss m = {}" by simp
    with mk show "m \<in> ready_set ss []" by (simp add: ready_set_def)
  next
    fix m assume "m \<in> ready_set ss []"
    then have mk: "m \<in> set (map Step.name ss)" and e: "deps_of ss m = {}"
      by (auto simp: ready_set_def)
    have "map_of ?i m = Some 0" using imap[of m] map_of_dep_graph[OF d mk] e by simp
    then have "(m, 0) \<in> set ?i" by (rule map_of_SomeD)
    then show "m \<in> set (zero_indeg ?i)" by (force simp: zero_indeg_def)
  qed
  have dz: "distinct (zero_indeg ?i)"
    unfolding zero_indeg_def using ikeys keys d by (simp add: distinct_map_filter)
  show ?thesis
    unfolding kahn_inv_def
    using cons keys map_of_dep_graph[OF d] zq dz by (auto simp del: ready_set_def)
qed

lemma kahn_complete:
  assumes inv: "kahn_inv ss (graph, indeg, [], order)"
    and res: "\<forall>s \<in> set ss. set (Step.depends_on s) \<subseteq> set (map Step.name ss)"
    and acy: "acyclic (dep_rel ss)"
  shows "set order = set (map Step.name ss)"
proof (rule ccontr)
  let ?N = "set (map Step.name ss)"
  assume ne: "set order \<noteq> ?N"
  from inv have sub: "set order \<subseteq> ?N" and rdy: "ready_set ss order = {}"
    by (auto simp: kahn_inv_def)
  from ne sub obtain x where x: "x \<in> ?N - set order" by auto
  have "finite (dep_rel ss)" by (simp add: dep_rel_def)
  then have "wf (dep_rel ss)" using acy by (rule finite_acyclic_wf)
  from wfE_min[OF this x] obtain z where z: "z \<in> ?N - set order"
    and zmin: "\<And>y. (y, z) \<in> dep_rel ss \<Longrightarrow> y \<notin> ?N - set order" by blast
  have "deps_of ss z \<subseteq> set order"
  proof
    fix d assume dz: "d \<in> deps_of ss z"
    then have "(d, z) \<in> dep_rel ss" by (simp add: deps_of_dep_rel)
    then have "d \<notin> ?N - set order" by (rule zmin)
    moreover have "d \<in> ?N" using dz res by (auto simp: deps_of_def)
    ultimately show "d \<in> set order" by simp
  qed
  with z have "z \<in> ready_set ss order" by (simp add: ready_set_def)
  with rdy show False by simp
qed

lemma kahn_result:
  assumes d: "distinct (map Step.name ss)"
  shows "\<exists>graph indeg order. kahn ss = Inr order \<and> kahn_inv ss (graph, indeg, [], order)"
  using kahn_loop_inv[OF kahn_inv_init[OF d]] by (simp add: kahn_def Let_def)

lemma ready_set_deps:
  "m \<in> ready_set ss emitted \<Longrightarrow> deps_of ss m \<subseteq> set emitted"
  by (simp add: ready_set_def)

text \<open>
  C2.  For a step list with unique names, resolved dependencies and an acyclic
  dependency graph, \<^verbatim>\<open>build_dag\<close> returns an order that has as many names as there are
  steps, holds every step name once, is topological (all the dependencies of the name
  at position \<open>i\<close> are among the first \<open>i\<close> names), and at every position holds the least
  name, in the lexicographic order, of the steps not yet emitted whose dependencies
  have all been emitted.  \<^verbatim>\<open>build_dag\<close> is a function of the step list, so two runs on
  the same workflow give the same order; the last property moreover determines it.
\<close>

theorem build_dag_canonical:
  assumes d: "distinct (map Step.name ss)"
    and res: "\<forall>s \<in> set ss. set (Step.depends_on s) \<subseteq> set (map Step.name ss)"
    and acy: "acyclic (dep_rel ss)"
  shows "\<exists>order. build_dag ss = Inr order \<and> length order = length ss \<and> distinct order \<and>
           set order = set (map Step.name ss) \<and>
           (\<forall>i < length order. deps_of ss (order ! i) \<subseteq> set (take i order)) \<and>
           (\<forall>i < length order. order ! i \<in> ready_set ss (take i order) \<and>
                                  order ! i = Min (ready_set ss (take i order)))"
proof -
  from kahn_result[OF d] obtain graph indeg order where
    k: "kahn ss = Inr order" and inv: "kahn_inv ss (graph, indeg, [], order)" by blast
  from inv have dord: "distinct order"
    and mins: "\<forall>i < length order. order ! i \<in> ready_set ss (take i order) \<and>
                 order ! i = Min (ready_set ss (take i order))"
    by (auto simp: kahn_inv_def)
  have all: "set order = set (map Step.name ss)" by (rule kahn_complete[OF inv res acy])
  have "length order = card (set order)" using dord by (simp add: distinct_card)
  also have "\<dots> = card (set (map Step.name ss))" using all by simp
  also have "\<dots> = length (map Step.name ss)" using d by (rule distinct_card)
  finally have len: "length order = length ss" by simp
  have b: "build_dag ss = Inr order" using k len by (simp add: build_dag_def)
  have topo: "\<forall>i < length order. deps_of ss (order ! i) \<subseteq> set (take i order)"
    using mins ready_set_deps by blast
  from b len dord all topo mins show ?thesis by blast
qed

theorem build_dag_canonical_witness:
  "(let ss = [\<lparr>Step.name = ''d'', run = Some ''true'', timeout = None, retries = Some 0,
                depends_on = [''b'', ''c''], on_error = None\<rparr>,
              \<lparr>Step.name = ''c'', run = Some ''true'', timeout = None, retries = Some 0,
                depends_on = [''a''], on_error = None\<rparr>,
              \<lparr>Step.name = ''b'', run = Some ''true'', timeout = None, retries = Some 0,
                depends_on = [''a''], on_error = None\<rparr>,
              \<lparr>Step.name = ''a'', run = Some ''true'', timeout = None, retries = Some 0,
                depends_on = [], on_error = None\<rparr>]
    in distinct (map Step.name ss) \<and>
       (\<forall>s \<in> set ss. set (Step.depends_on s) \<subseteq> set (map Step.name ss)) \<and>
       acyclic (dep_rel ss) \<and>
       build_dag ss = Inr [''a'', ''b'', ''c'', ''d''] \<and>
       (\<forall>i < 4. [''a'', ''b'', ''c'', ''d''] ! i
                  = Min (ready_set ss (take i [''a'', ''b'', ''c'', ''d'']))))"
proof -
  define ss where "ss = [\<lparr>Step.name = ''d'', run = Some ''true'', timeout = None, retries = Some 0,
                depends_on = [''b'', ''c''], on_error = None\<rparr>,
              \<lparr>Step.name = ''c'', run = Some ''true'', timeout = None, retries = Some 0,
                depends_on = [''a''], on_error = None\<rparr>,
              \<lparr>Step.name = ''b'', run = Some ''true'', timeout = None, retries = Some 0,
                depends_on = [''a''], on_error = None\<rparr>,
              \<lparr>Step.name = ''a'', run = Some ''true'', timeout = None, retries = Some 0,
                depends_on = [], on_error = None\<rparr>]"
  have h1: "distinct (map Step.name ss)" by (simp add: ss_def)
  have h2: "\<forall>s \<in> set ss. set (Step.depends_on s) \<subseteq> set (map Step.name ss)"
    by (simp add: ss_def)
  have h3: "acyclic (dep_rel ss)"
  proof (rule acyclicI_order)
    fix a b assume "(a, b) \<in> dep_rel ss"
    then show "(if b = ''d'' then 0 else if b = ''a'' then 2 else (1::nat))
             < (if a = ''d'' then 0 else if a = ''a'' then 2 else (1::nat))"
      by (auto simp: dep_rel_def ss_def)
  qed
  have e: "build_dag ss = Inr [''a'', ''b'', ''c'', ''d'']"
    unfolding ss_def by code_simp
  from build_dag_canonical[OF h1 h2 h3] e
  have "\<forall>i < 4. [''a'', ''b'', ''c'', ''d''] ! i
                  = Min (ready_set ss (take i [''a'', ''b'', ''c'', ''d'']))"
    by auto
  with h1 h2 h3 e show ?thesis unfolding Let_def ss_def[symmetric] by blast
qed

section \<open>Properties of the validations\<close>

lemma check_duplicates_loop_Inr:
  "check_duplicates_loop ss names = Inr () \<longleftrightarrow>
     distinct (map Step.name ss) \<and> set (map Step.name ss) \<inter> names = {}"
  by (induction ss arbitrary: names) auto

lemma check_duplicates_loop_Inl:
  "check_duplicates_loop ss names \<noteq> Inr () \<Longrightarrow>
   \<exists>n \<in> set (map Step.name ss). check_duplicates_loop ss names = Inl (DuplicateStepName n)"
  by (induction ss arbitrary: names) (auto split: if_splits)

lemma check_duplicates_Inr: "check_duplicates ss = Inr () \<longleftrightarrow> distinct (map Step.name ss)"
  by (simp add: check_duplicates_def check_duplicates_loop_Inr)

lemma check_duplicates_Inl:
  "\<not> distinct (map Step.name ss) \<Longrightarrow>
   \<exists>n \<in> set (map Step.name ss). check_duplicates ss = Inl (DuplicateStepName n)"
  using check_duplicates_loop_Inl[of ss "{}"] check_duplicates_Inr[of ss]
  by (simp add: check_duplicates_def)

lemma missing_in_deps_Inr:
  "missing_in_deps names s ds = Inr () \<longleftrightarrow> set ds \<subseteq> names"
  by (induction ds) auto

lemma missing_in_deps_Inl:
  "missing_in_deps names s ds \<noteq> Inr () \<Longrightarrow>
   \<exists>d \<in> set ds. d \<notin> names \<and> missing_in_deps names s ds = Inl (MissingDependency s d)"
  by (induction ds) (auto split: if_splits)

lemma missing_in_steps_Inr:
  "missing_in_steps names ss = Inr () \<longleftrightarrow> (\<forall>s \<in> set ss. set (Step.depends_on s) \<subseteq> names)"
proof (induction ss)
  case Nil
  then show ?case by simp
next
  case (Cons a ss)
  show ?case
  proof (cases "missing_in_deps names (Step.name a) (Step.depends_on a)")
    case (Inl e)
    then have "\<not> set (Step.depends_on a) \<subseteq> names"
      using missing_in_deps_Inr[of names "Step.name a" "Step.depends_on a"] by auto
    with Inl show ?thesis by auto
  next
    case (Inr u)
    then have "set (Step.depends_on a) \<subseteq> names"
      using missing_in_deps_Inr[of names "Step.name a" "Step.depends_on a"] by auto
    with Inr Cons.IH show ?thesis by auto
  qed
qed

lemma missing_in_steps_Inl:
  "missing_in_steps names ss \<noteq> Inr () \<Longrightarrow>
   \<exists>s d. missing_in_steps names ss = Inl (MissingDependency s d)"
proof (induction ss)
  case Nil
  then show ?case by simp
next
  case (Cons a ss)
  show ?case
  proof (cases "missing_in_deps names (Step.name a) (Step.depends_on a)")
    case (Inl e)
    then have "missing_in_deps names (Step.name a) (Step.depends_on a) \<noteq> Inr ()" by simp
    from missing_in_deps_Inl[OF this] Inl show ?thesis by auto
  next
    case (Inr u)
    with Cons show ?thesis by auto
  qed
qed

lemma check_missing_Inr:
  "check_missing_dependencies ss = Inr () \<longleftrightarrow>
     (\<forall>s \<in> set ss. set (Step.depends_on s) \<subseteq> set (map Step.name ss))"
  by (simp add: check_missing_dependencies_def missing_in_steps_Inr)

lemma check_missing_Inl:
  "\<not> (\<forall>s \<in> set ss. set (Step.depends_on s) \<subseteq> set (map Step.name ss)) \<Longrightarrow>
   \<exists>s d. check_missing_dependencies ss = Inl (MissingDependency s d)"
  using missing_in_steps_Inl[of "set (map Step.name ss)" ss] check_missing_Inr[of ss]
  by (simp add: check_missing_dependencies_def)

lemma banned_in_patterns_Inr:
  "banned_in_patterns s c pats = Inr () \<longleftrightarrow> (\<forall>p \<in> set pats. \<not> re_search p c)"
  by (induction pats) auto

lemma banned_in_patterns_Inl:
  "banned_in_patterns s c pats \<noteq> Inr () \<Longrightarrow>
   \<exists>p \<in> set pats. re_search p c \<and> banned_in_patterns s c pats = Inl (BannedPattern s p)"
  by (induction pats) (auto split: if_splits)

lemma re_search_empty: "p \<in> set BANNED_PATTERNS \<Longrightarrow> \<not> re_search p []"
  by (auto simp: BANNED_PATTERNS_def re_search_def)

lemma check_banned_Inr:
  "check_banned_commands ss = Inr () \<longleftrightarrow> (\<forall>s \<in> set ss. \<not> banned_step s)"
proof (induction ss)
  case Nil
  then show ?case by simp
next
  case (Cons a ss)
  let ?r = "case Step.run a of None \<Rightarrow> Inr ()
            | Some c \<Rightarrow> if c = [] then Inr () else banned_in_patterns (Step.name a) c BANNED_PATTERNS"
  have a: "?r = Inr () \<longleftrightarrow> \<not> banned_step a"
    using re_search_empty
    by (auto simp: banned_step_def banned_in_patterns_Inr split: option.splits)
  show ?case
  proof (cases ?r)
    case (Inl e)
    with a show ?thesis by auto
  next
    case (Inr u)
    with a Cons.IH show ?thesis by auto
  qed
qed

lemma check_banned_Inl:
  "check_banned_commands ss \<noteq> Inr () \<Longrightarrow>
   \<exists>n p. p \<in> set BANNED_PATTERNS \<and> check_banned_commands ss = Inl (BannedPattern n p)"
proof (induction ss)
  case Nil
  then show ?case by simp
next
  case (Cons a ss)
  let ?r = "case Step.run a of None \<Rightarrow> Inr ()
            | Some c \<Rightarrow> if c = [] then Inr () else banned_in_patterns (Step.name a) c BANNED_PATTERNS"
  show ?case
  proof (cases ?r)
    case (Inl e)
    then obtain c where c: "Step.run a = Some c" "c \<noteq> []"
      "banned_in_patterns (Step.name a) c BANNED_PATTERNS = Inl e"
      by (auto split: option.splits if_splits)
    then have "banned_in_patterns (Step.name a) c BANNED_PATTERNS \<noteq> Inr ()" by simp
    from banned_in_patterns_Inl[OF this] c Inl show ?thesis by auto
  next
    case (Inr u)
    with Cons show ?thesis by auto
  qed
qed

section \<open>Cycle detection decides acyclicity\<close>

lemma index_takeWhile:
  assumes "distinct xs" "i < length xs"
  shows "length (takeWhile (\<lambda>y. y \<noteq> xs ! i) xs) = i"
proof -
  have "takeWhile (\<lambda>y. y \<noteq> xs ! i) xs = take i xs"
  proof (rule takeWhile_eq_take_P_nth)
    fix j assume "j < i" "j < length xs"
    then show "xs ! j \<noteq> xs ! i" using assms by (simp add: nth_eq_iff_index_eq)
  next
    show "i < length xs \<Longrightarrow> \<not> xs ! i \<noteq> xs ! i" by simp
  qed
  then show ?thesis using assms(2) by simp
qed

lemma kahn_sound:
  assumes inv: "kahn_inv ss (graph, indeg, [], order)"
    and all: "set order = set (map Step.name ss)"
  shows "acyclic (dep_rel ss)"
proof -
  let ?f = "\<lambda>x. length (takeWhile (\<lambda>y. y \<noteq> x) order)"
  from inv have dord: "distinct order"
    and mins: "\<forall>i < length order. order ! i \<in> ready_set ss (take i order) \<and>
                 order ! i = Min (ready_set ss (take i order))"
    by (auto simp: kahn_inv_def)
  have "acyclic ((dep_rel ss)\<inverse>)"
  proof (rule acyclicI_order)
    fix a b assume "(a, b) \<in> (dep_rel ss)\<inverse>"
    then have e: "(b, a) \<in> dep_rel ss" by simp
    then have "a \<in> set (map Step.name ss)" by (auto simp: dep_rel_def)
    then have "a \<in> set order" using all by simp
    then obtain i where i: "i < length order" "order ! i = a" by (auto simp: in_set_conv_nth)
    have "b \<in> deps_of ss a" using e by (simp add: deps_of_dep_rel)
    moreover have "deps_of ss a \<subseteq> set (take i order)"
    proof -
      from mins i(1) have "order ! i \<in> ready_set ss (take i order)" by blast
      then have "a \<in> ready_set ss (take i order)" using i(2) by simp
      then show ?thesis unfolding ready_set_def by blast
    qed
    ultimately have "b \<in> set (take i order)" by blast
    then obtain j where j: "j < i" "order ! j = b"
      using i(1) by (auto simp: in_set_conv_nth)
    have "?f a = i" using index_takeWhile[OF dord i(1)] i(2) by simp
    moreover have "?f b = j" using index_takeWhile[OF dord, of j] j i(1) by simp
    ultimately show "?f b < ?f a" using j(1) by simp
  qed
  then show ?thesis by simp
qed

lemma detect_cycle_acyclic:
  assumes d: "distinct (map Step.name ss)"
    and res: "\<forall>s \<in> set ss. set (Step.depends_on s) \<subseteq> set (map Step.name ss)"
  shows "detect_cycle ss = (if acyclic (dep_rel ss) then Inr () else Inl CycleDetected)"
proof -
  from kahn_result[OF d] obtain graph indeg order where
    k: "kahn ss = Inr order" and inv: "kahn_inv ss (graph, indeg, [], order)" by blast
  from inv have dord: "distinct order" and sub: "set order \<subseteq> set (map Step.name ss)"
    by (auto simp: kahn_inv_def)
  have len: "length order = length ss \<longleftrightarrow> set order = set (map Step.name ss)"
  proof
    assume l: "length order = length ss"
    have "card (set order) = length order" using dord by (rule distinct_card)
    moreover have "card (set (map Step.name ss)) = length (map Step.name ss)"
      using d by (rule distinct_card)
    ultimately have "card (set (map Step.name ss)) \<le> card (set order)" using l by simp
    with sub show "set order = set (map Step.name ss)"
      by (simp add: card_seteq)
  next
    assume a: "set order = set (map Step.name ss)"
    have "length order = card (set order)" using dord by (simp add: distinct_card)
    also have "\<dots> = card (set (map Step.name ss))" using a by simp
    also have "\<dots> = length (map Step.name ss)" using d by (rule distinct_card)
    finally show "length order = length ss" by simp
  qed
  show ?thesis
  proof (cases "acyclic (dep_rel ss)")
    case True
    have "set order = set (map Step.name ss)" by (rule kahn_complete[OF inv res True])
    with len k True show ?thesis by (simp add: detect_cycle_def)
  next
    case False
    have "set order \<noteq> set (map Step.name ss)" using kahn_sound[OF inv] False by blast
    with len k False show ?thesis by (simp add: detect_cycle_def)
  qed
qed

lemma build_dag_after_detect_cycle:
  "detect_cycle ss = Inr () \<Longrightarrow> \<exists>order. build_dag ss = Inr order"
  by (auto simp: detect_cycle_def build_dag_def split: sum.splits if_splits)

section \<open>The order of the validations and the banned commands\<close>

lemma semantic_check_structural_ok:
  assumes d: "distinct (map Step.name (steps w))"
    and r: "\<forall>s \<in> set (steps w). set (Step.depends_on s) \<subseteq> set (map Step.name (steps w))"
    and a: "acyclic (dep_rel (steps w))"
  shows "semantic_check w =
           (case check_banned_commands (steps w) of Inl e \<Rightarrow> Inl e | Inr _ \<Rightarrow> build_dag (steps w))"
proof -
  have 1: "check_duplicates (steps w) = Inr ()" using d by (simp add: check_duplicates_Inr)
  have 2: "check_missing_dependencies (steps w) = Inr ()" using r by (simp add: check_missing_Inr)
  have 3: "detect_cycle (steps w) = Inr ()" using detect_cycle_acyclic[OF d r] a by simp
  show ?thesis by (simp add: semantic_check_def 1 2 3)
qed

lemma rm_rf_banned: "re_search (hd BANNED_PATTERNS) ''rm -rf /tmp/x''"
  by (simp add: BANNED_PATTERNS_def re_search_def uni_isspace_def byte_def)

text \<open>
  \<^verbatim>\<open>\s\<close> is the white space of Unicode: with a no-break space (U+00A0, the bytes C2 A0)
  between \<^verbatim>\<open>rm\<close> and \<^verbatim>\<open>-rf\<close> the first pattern matches too, and the upper-case
  \<^verbatim>\<open>RM -RF\<close> matches no pattern.
\<close>

lemma rm_nbsp_rf_banned:
  "re_search (hd BANNED_PATTERNS) [CHR ''r'', CHR ''m'', CHR 0xC2, CHR 0xA0, CHR ''-'', CHR ''r'', CHR ''f'']"
  by (simp add: BANNED_PATTERNS_def re_search_def uni_isspace_def byte_def is_cont_def cont_bits_def)

lemma upper_case_not_banned:
  "\<forall>p \<in> set BANNED_PATTERNS. \<not> re_search p ''RM -RF /tmp/x''"
  by (simp add: BANNED_PATTERNS_def re_search_def uni_isspace_def byte_def)

lemma hd_banned: "hd BANNED_PATTERNS \<in> set BANNED_PATTERNS"
  by (simp add: BANNED_PATTERNS_def)

text \<open>
  Claim C6.  Let the steps of a workflow have unique names, dependencies that all name
  steps, and an acyclic dependency graph, so that the duplicate, missing-dependency and
  cycle checks pass.  If the command of some step matches one of \<^verbatim>\<open>BANNED_PATTERNS\<close>
  under \<^verbatim>\<open>re.search\<close>, or is the command \<^verbatim>\<open>rm -rf /tmp/x\<close>, then \<^verbatim>\<open>semantic_check\<close>
  raises the banned-pattern error, for some step and one of the banned patterns.
\<close>

theorem banned_command_rejected:
  assumes d: "distinct (map Step.name (steps w))"
    and r: "\<forall>s \<in> set (steps w). set (Step.depends_on s) \<subseteq> set (map Step.name (steps w))"
    and a: "acyclic (dep_rel (steps w))"
    and s: "s \<in> set (steps w)" and c: "Step.run s = Some c"
    and m: "(\<exists>p \<in> set BANNED_PATTERNS. re_search p c) \<or> c = ''rm -rf /tmp/x''"
  shows "\<exists>n p. p \<in> set BANNED_PATTERNS \<and> semantic_check w = Inl (BannedPattern n p)"
proof -
  from m have "\<exists>p \<in> set BANNED_PATTERNS. re_search p c"
    using rm_rf_banned hd_banned by blast
  with c have "banned_step s" by (simp add: banned_step_def)
  with s have "check_banned_commands (steps w) \<noteq> Inr ()"
    by (auto simp: check_banned_Inr)
  from check_banned_Inl[OF this] obtain n p where
    p: "p \<in> set BANNED_PATTERNS" and e: "check_banned_commands (steps w) = Inl (BannedPattern n p)"
    by blast
  from e have "semantic_check w = Inl (BannedPattern n p)"
    by (simp add: semantic_check_structural_ok[OF d r a])
  with p show ?thesis by blast
qed

theorem banned_command_rejected_witness:
  "(let s = \<lparr>Step.name = ''clean'', run = Some ''rm -rf /tmp/x'', timeout = None,
               retries = Some 0, depends_on = [], on_error = None\<rparr>;
        w = \<lparr>Workflow.name = ''w'', triggers = [], env = [], steps = [s], notifies = []\<rparr>
    in distinct (map Step.name (steps w)) \<and>
       (\<forall>s \<in> set (steps w). set (Step.depends_on s) \<subseteq> set (map Step.name (steps w))) \<and>
       acyclic (dep_rel (steps w)) \<and> s \<in> set (steps w) \<and>
       (\<exists>n p. p \<in> set BANNED_PATTERNS \<and> semantic_check w = Inl (BannedPattern n p)))"
proof -
  define s where "s = \<lparr>Step.name = ''clean'', run = Some ''rm -rf /tmp/x'', timeout = None,
               retries = Some 0, depends_on = [], on_error = None\<rparr>"
  define w where "w = \<lparr>Workflow.name = ''w'', triggers = [], env = [], steps = [s], notifies = []\<rparr>"
  have h1: "distinct (map Step.name (steps w))" by (simp add: w_def)
  have h2: "\<forall>s \<in> set (steps w). set (Step.depends_on s) \<subseteq> set (map Step.name (steps w))"
    by (simp add: w_def s_def)
  have h3: "acyclic (dep_rel (steps w))" by (simp add: w_def s_def dep_rel_def acyclic_def)
  have h4: "s \<in> set (steps w)" by (simp add: w_def)
  have h5: "Step.run s = Some ''rm -rf /tmp/x''" by (simp add: s_def)
  from banned_command_rejected[OF h1 h2 h3 h4 h5]
  have "\<exists>n p. p \<in> set BANNED_PATTERNS \<and> semantic_check w = Inl (BannedPattern n p)" by simp
  with h1 h2 h3 h4 show ?thesis unfolding Let_def s_def[symmetric] w_def[symmetric] by blast
qed

text \<open>
  Claim C9.  \<^verbatim>\<open>semantic_check\<close> reports the first validation that fails, in the order
  duplicate names, unresolved dependencies, cycle, banned commands: a duplicate name gives
  the duplicate-name error whatever else is wrong with the workflow; with unique names,
  an unresolved dependency gives the missing-dependency error; with these two in order,
  a cycle gives the cycle error; with these three in order, a banned command gives the
  banned-pattern error; and a workflow with none of the four is accepted with an order.
  The result is a single value: one error or one order.
\<close>

theorem semantic_check_first_error:
  "(\<not> distinct (map Step.name (steps w)) \<longrightarrow>
      (\<exists>n. semantic_check w = Inl (DuplicateStepName n))) \<and>
   (distinct (map Step.name (steps w)) \<and>
    \<not> (\<forall>s \<in> set (steps w). set (Step.depends_on s) \<subseteq> set (map Step.name (steps w))) \<longrightarrow>
      (\<exists>s d. semantic_check w = Inl (MissingDependency s d))) \<and>
   (distinct (map Step.name (steps w)) \<and>
    (\<forall>s \<in> set (steps w). set (Step.depends_on s) \<subseteq> set (map Step.name (steps w))) \<and>
    \<not> acyclic (dep_rel (steps w)) \<longrightarrow>
      semantic_check w = Inl CycleDetected) \<and>
   (distinct (map Step.name (steps w)) \<and>
    (\<forall>s \<in> set (steps w). set (Step.depends_on s) \<subseteq> set (map Step.name (steps w))) \<and>
    acyclic (dep_rel (steps w)) \<and> (\<exists>s \<in> set (steps w). banned_step s) \<longrightarrow>
      (\<exists>n p. p \<in> set BANNED_PATTERNS \<and> semantic_check w = Inl (BannedPattern n p))) \<and>
   (distinct (map Step.name (steps w)) \<and>
    (\<forall>s \<in> set (steps w). set (Step.depends_on s) \<subseteq> set (map Step.name (steps w))) \<and>
    acyclic (dep_rel (steps w)) \<and> (\<forall>s \<in> set (steps w). \<not> banned_step s) \<longrightarrow>
      (\<exists>order. semantic_check w = Inr order))"
proof (intro conjI impI)
  assume "\<not> distinct (map Step.name (steps w))"
  from check_duplicates_Inl[OF this]
  show "\<exists>n. semantic_check w = Inl (DuplicateStepName n)"
    by (auto simp: semantic_check_def)
next
  assume h: "distinct (map Step.name (steps w)) \<and>
    \<not> (\<forall>s \<in> set (steps w). set (Step.depends_on s) \<subseteq> set (map Step.name (steps w)))"
  then have 1: "check_duplicates (steps w) = Inr ()" by (simp add: check_duplicates_Inr)
  from h have "\<not> (\<forall>s \<in> set (steps w). set (Step.depends_on s) \<subseteq> set (map Step.name (steps w)))"
    by blast
  from check_missing_Inl[OF this] obtain s d where
    "check_missing_dependencies (steps w) = Inl (MissingDependency s d)" by blast
  then have "semantic_check w = Inl (MissingDependency s d)"
    by (simp add: semantic_check_def 1)
  then show "\<exists>s d. semantic_check w = Inl (MissingDependency s d)" by blast
next
  assume h: "distinct (map Step.name (steps w)) \<and>
    (\<forall>s \<in> set (steps w). set (Step.depends_on s) \<subseteq> set (map Step.name (steps w))) \<and>
    \<not> acyclic (dep_rel (steps w))"
  then have d: "distinct (map Step.name (steps w))"
    and r: "\<forall>s \<in> set (steps w). set (Step.depends_on s) \<subseteq> set (map Step.name (steps w))"
    and a: "\<not> acyclic (dep_rel (steps w))" by blast+
  have 1: "check_duplicates (steps w) = Inr ()" using d by (simp add: check_duplicates_Inr)
  have 2: "check_missing_dependencies (steps w) = Inr ()" using r by (simp add: check_missing_Inr)
  have 3: "detect_cycle (steps w) = Inl CycleDetected" using detect_cycle_acyclic[OF d r] a by simp
  show "semantic_check w = Inl CycleDetected" by (simp add: semantic_check_def 1 2 3)
next
  assume h: "distinct (map Step.name (steps w)) \<and>
    (\<forall>s \<in> set (steps w). set (Step.depends_on s) \<subseteq> set (map Step.name (steps w))) \<and>
    acyclic (dep_rel (steps w)) \<and> (\<exists>s \<in> set (steps w). banned_step s)"
  then have d: "distinct (map Step.name (steps w))"
    and r: "\<forall>s \<in> set (steps w). set (Step.depends_on s) \<subseteq> set (map Step.name (steps w))"
    and a: "acyclic (dep_rel (steps w))" and b: "\<exists>s \<in> set (steps w). banned_step s" by blast+
  from b have "check_banned_commands (steps w) \<noteq> Inr ()" by (simp add: check_banned_Inr)
  from check_banned_Inl[OF this] obtain n p where
    p: "p \<in> set BANNED_PATTERNS" and e: "check_banned_commands (steps w) = Inl (BannedPattern n p)"
    by blast
  from e have "semantic_check w = Inl (BannedPattern n p)"
    by (simp add: semantic_check_structural_ok[OF d r a])
  with p show "\<exists>n p. p \<in> set BANNED_PATTERNS \<and> semantic_check w = Inl (BannedPattern n p)"
    by blast
next
  assume h: "distinct (map Step.name (steps w)) \<and>
    (\<forall>s \<in> set (steps w). set (Step.depends_on s) \<subseteq> set (map Step.name (steps w))) \<and>
    acyclic (dep_rel (steps w)) \<and> (\<forall>s \<in> set (steps w). \<not> banned_step s)"
  then have d: "distinct (map Step.name (steps w))"
    and r: "\<forall>s \<in> set (steps w). set (Step.depends_on s) \<subseteq> set (map Step.name (steps w))"
    and a: "acyclic (dep_rel (steps w))" and b: "\<forall>s \<in> set (steps w). \<not> banned_step s" by blast+
  have 3: "detect_cycle (steps w) = Inr ()" using detect_cycle_acyclic[OF d r] a by simp
  have 4: "check_banned_commands (steps w) = Inr ()" using b by (simp add: check_banned_Inr)
  from build_dag_after_detect_cycle[OF 3] obtain order where "build_dag (steps w) = Inr order"
    by blast
  then have "semantic_check w = Inr order"
    by (simp add: semantic_check_structural_ok[OF d r a] 4)
  then show "\<exists>order. semantic_check w = Inr order" by blast
qed

theorem semantic_check_first_error_witness:
  "(let w = \<lparr>Workflow.name = ''w'', triggers = [], env = [],
          steps = [\<lparr>Step.name = ''a'', run = Some ''true'', timeout = None, retries = Some 0,
            depends_on = [], on_error = None\<rparr>,
            \<lparr>Step.name = ''a'', run = Some ''rm -rf /tmp/x'', timeout = None, retries = Some 0,
            depends_on = [], on_error = None\<rparr>],
          notifies = []\<rparr>
    in \<not> distinct (map Step.name (steps w)) \<and>
       (\<exists>n. semantic_check w = Inl (DuplicateStepName n))) \<and>
   (let w = \<lparr>Workflow.name = ''w'', triggers = [], env = [],
          steps = [\<lparr>Step.name = ''a'', run = Some ''rm -rf /tmp/x'', timeout = None, retries = Some 0,
            depends_on = [''zz''], on_error = None\<rparr>],
          notifies = []\<rparr>
    in distinct (map Step.name (steps w)) \<and>
       \<not> (\<forall>s \<in> set (steps w). set (Step.depends_on s) \<subseteq> set (map Step.name (steps w))) \<and>
       (\<exists>s d. semantic_check w = Inl (MissingDependency s d))) \<and>
   (let w = \<lparr>Workflow.name = ''w'', triggers = [], env = [],
          steps = [\<lparr>Step.name = ''a'', run = Some ''rm -rf /tmp/x'', timeout = None, retries = Some 0,
            depends_on = [''b''], on_error = None\<rparr>,
            \<lparr>Step.name = ''b'', run = Some ''true'', timeout = None, retries = Some 0,
            depends_on = [''a''], on_error = None\<rparr>],
          notifies = []\<rparr>
    in distinct (map Step.name (steps w)) \<and>
       (\<forall>s \<in> set (steps w). set (Step.depends_on s) \<subseteq> set (map Step.name (steps w))) \<and>
       \<not> acyclic (dep_rel (steps w)) \<and>
       semantic_check w = Inl CycleDetected) \<and>
   (let w = \<lparr>Workflow.name = ''w'', triggers = [], env = [],
          steps = [\<lparr>Step.name = ''a'', run = Some ''rm -rf /tmp/x'', timeout = None, retries = Some 0,
            depends_on = [], on_error = None\<rparr>],
          notifies = []\<rparr>
    in distinct (map Step.name (steps w)) \<and>
       (\<forall>s \<in> set (steps w). set (Step.depends_on s) \<subseteq> set (map Step.name (steps w))) \<and>
       acyclic (dep_rel (steps w)) \<and>
       (\<exists>s \<in> set (steps w). banned_step s) \<and>
       (\<exists>n p. p \<in> set BANNED_PATTERNS \<and> semantic_check w = Inl (BannedPattern n p))) \<and>
   (let w = \<lparr>Workflow.name = ''w'', triggers = [], env = [],
          steps = [\<lparr>Step.name = ''a'', run = Some ''true'', timeout = None, retries = Some 0,
            depends_on = [], on_error = None\<rparr>,
            \<lparr>Step.name = ''b'', run = Some ''true'', timeout = None, retries = Some 0,
            depends_on = [''a''], on_error = None\<rparr>],
          notifies = []\<rparr>
    in distinct (map Step.name (steps w)) \<and>
       (\<forall>s \<in> set (steps w). set (Step.depends_on s) \<subseteq> set (map Step.name (steps w))) \<and>
       acyclic (dep_rel (steps w)) \<and>
       (\<forall>s \<in> set (steps w). \<not> banned_step s) \<and>
       (\<exists>order. semantic_check w = Inr order))"
proof -
  have c1: "(let w = \<lparr>Workflow.name = ''w'', triggers = [], env = [],
          steps = [\<lparr>Step.name = ''a'', run = Some ''true'', timeout = None, retries = Some 0,
            depends_on = [], on_error = None\<rparr>,
            \<lparr>Step.name = ''a'', run = Some ''rm -rf /tmp/x'', timeout = None, retries = Some 0,
            depends_on = [], on_error = None\<rparr>],
          notifies = []\<rparr>
    in \<not> distinct (map Step.name (steps w)) \<and>
       (\<exists>n. semantic_check w = Inl (DuplicateStepName n)))"
  proof -
    define w where "w = \<lparr>Workflow.name = ''w'', triggers = [], env = [],
          steps = [\<lparr>Step.name = ''a'', run = Some ''true'', timeout = None, retries = Some 0,
            depends_on = [], on_error = None\<rparr>,
            \<lparr>Step.name = ''a'', run = Some ''rm -rf /tmp/x'', timeout = None, retries = Some 0,
            depends_on = [], on_error = None\<rparr>],
          notifies = []\<rparr>"
    have h1: "\<not> distinct (map Step.name (steps w))"
      by (simp add: w_def)
    from semantic_check_first_error[of w] h1 have "(\<exists>n. semantic_check w = Inl (DuplicateStepName n))" by blast
    with h1 show ?thesis unfolding Let_def w_def[symmetric] by blast
  qed
  have c2: "(let w = \<lparr>Workflow.name = ''w'', triggers = [], env = [],
          steps = [\<lparr>Step.name = ''a'', run = Some ''rm -rf /tmp/x'', timeout = None, retries = Some 0,
            depends_on = [''zz''], on_error = None\<rparr>],
          notifies = []\<rparr>
    in distinct (map Step.name (steps w)) \<and>
       \<not> (\<forall>s \<in> set (steps w). set (Step.depends_on s) \<subseteq> set (map Step.name (steps w))) \<and>
       (\<exists>s d. semantic_check w = Inl (MissingDependency s d)))"
  proof -
    define w where "w = \<lparr>Workflow.name = ''w'', triggers = [], env = [],
          steps = [\<lparr>Step.name = ''a'', run = Some ''rm -rf /tmp/x'', timeout = None, retries = Some 0,
            depends_on = [''zz''], on_error = None\<rparr>],
          notifies = []\<rparr>"
    have h1: "distinct (map Step.name (steps w))"
      by (simp add: w_def)
    have h2: "\<not> (\<forall>s \<in> set (steps w). set (Step.depends_on s) \<subseteq> set (map Step.name (steps w)))"
      by (simp add: w_def)
    from semantic_check_first_error[of w] h1 h2 have "(\<exists>s d. semantic_check w = Inl (MissingDependency s d))" by blast
    with h1 h2 show ?thesis unfolding Let_def w_def[symmetric] by blast
  qed
  have c3: "(let w = \<lparr>Workflow.name = ''w'', triggers = [], env = [],
          steps = [\<lparr>Step.name = ''a'', run = Some ''rm -rf /tmp/x'', timeout = None, retries = Some 0,
            depends_on = [''b''], on_error = None\<rparr>,
            \<lparr>Step.name = ''b'', run = Some ''true'', timeout = None, retries = Some 0,
            depends_on = [''a''], on_error = None\<rparr>],
          notifies = []\<rparr>
    in distinct (map Step.name (steps w)) \<and>
       (\<forall>s \<in> set (steps w). set (Step.depends_on s) \<subseteq> set (map Step.name (steps w))) \<and>
       \<not> acyclic (dep_rel (steps w)) \<and>
       semantic_check w = Inl CycleDetected)"
  proof -
    define w where "w = \<lparr>Workflow.name = ''w'', triggers = [], env = [],
          steps = [\<lparr>Step.name = ''a'', run = Some ''rm -rf /tmp/x'', timeout = None, retries = Some 0,
            depends_on = [''b''], on_error = None\<rparr>,
            \<lparr>Step.name = ''b'', run = Some ''true'', timeout = None, retries = Some 0,
            depends_on = [''a''], on_error = None\<rparr>],
          notifies = []\<rparr>"
    have h1: "distinct (map Step.name (steps w))"
      by (simp add: w_def)
    have h2: "(\<forall>s \<in> set (steps w). set (Step.depends_on s) \<subseteq> set (map Step.name (steps w)))"
      by (simp add: w_def)
    have h3: "\<not> acyclic (dep_rel (steps w))"
      proof -
      have "(''a'', ''b'') \<in> dep_rel (steps w)" "(''b'', ''a'') \<in> dep_rel (steps w)"
        by (simp_all add: dep_rel_def w_def)
      then have "(''a'', ''a'') \<in> (dep_rel (steps w))\<^sup>+" by (meson trancl.simps)
      then show ?thesis by (auto simp: acyclic_def)
    qed
    from semantic_check_first_error[of w] h1 h2 h3 have "semantic_check w = Inl CycleDetected" by blast
    with h1 h2 h3 show ?thesis unfolding Let_def w_def[symmetric] by blast
  qed
  have c4: "(let w = \<lparr>Workflow.name = ''w'', triggers = [], env = [],
          steps = [\<lparr>Step.name = ''a'', run = Some ''rm -rf /tmp/x'', timeout = None, retries = Some 0,
            depends_on = [], on_error = None\<rparr>],
          notifies = []\<rparr>
    in distinct (map Step.name (steps w)) \<and>
       (\<forall>s \<in> set (steps w). set (Step.depends_on s) \<subseteq> set (map Step.name (steps w))) \<and>
       acyclic (dep_rel (steps w)) \<and>
       (\<exists>s \<in> set (steps w). banned_step s) \<and>
       (\<exists>n p. p \<in> set BANNED_PATTERNS \<and> semantic_check w = Inl (BannedPattern n p)))"
  proof -
    define w where "w = \<lparr>Workflow.name = ''w'', triggers = [], env = [],
          steps = [\<lparr>Step.name = ''a'', run = Some ''rm -rf /tmp/x'', timeout = None, retries = Some 0,
            depends_on = [], on_error = None\<rparr>],
          notifies = []\<rparr>"
    have h1: "distinct (map Step.name (steps w))"
      by (simp add: w_def)
    have h2: "(\<forall>s \<in> set (steps w). set (Step.depends_on s) \<subseteq> set (map Step.name (steps w)))"
      by (simp add: w_def)
    have h3: "acyclic (dep_rel (steps w))"
      by (simp add: w_def dep_rel_def acyclic_def)
    have h4: "(\<exists>s \<in> set (steps w). banned_step s)"
      by (simp add: w_def banned_step_def BANNED_PATTERNS_def re_search_def uni_isspace_def byte_def)
    from semantic_check_first_error[of w] h1 h2 h3 h4 have "(\<exists>n p. p \<in> set BANNED_PATTERNS \<and> semantic_check w = Inl (BannedPattern n p))" by blast
    with h1 h2 h3 h4 show ?thesis unfolding Let_def w_def[symmetric] by blast
  qed
  have c5: "(let w = \<lparr>Workflow.name = ''w'', triggers = [], env = [],
          steps = [\<lparr>Step.name = ''a'', run = Some ''true'', timeout = None, retries = Some 0,
            depends_on = [], on_error = None\<rparr>,
            \<lparr>Step.name = ''b'', run = Some ''true'', timeout = None, retries = Some 0,
            depends_on = [''a''], on_error = None\<rparr>],
          notifies = []\<rparr>
    in distinct (map Step.name (steps w)) \<and>
       (\<forall>s \<in> set (steps w). set (Step.depends_on s) \<subseteq> set (map Step.name (steps w))) \<and>
       acyclic (dep_rel (steps w)) \<and>
       (\<forall>s \<in> set (steps w). \<not> banned_step s) \<and>
       (\<exists>order. semantic_check w = Inr order))"
  proof -
    define w where "w = \<lparr>Workflow.name = ''w'', triggers = [], env = [],
          steps = [\<lparr>Step.name = ''a'', run = Some ''true'', timeout = None, retries = Some 0,
            depends_on = [], on_error = None\<rparr>,
            \<lparr>Step.name = ''b'', run = Some ''true'', timeout = None, retries = Some 0,
            depends_on = [''a''], on_error = None\<rparr>],
          notifies = []\<rparr>"
    have h1: "distinct (map Step.name (steps w))"
      by (simp add: w_def)
    have h2: "(\<forall>s \<in> set (steps w). set (Step.depends_on s) \<subseteq> set (map Step.name (steps w)))"
      by (simp add: w_def)
    have h3: "acyclic (dep_rel (steps w))"
      proof (rule acyclicI_order)
      fix a b assume "(a, b) \<in> dep_rel (steps w)"
      then show "(if b = ''a'' then 1 else (0::nat)) < (if a = ''a'' then 1 else (0::nat))"
        by (auto simp: dep_rel_def w_def)
    qed
    have h4: "(\<forall>s \<in> set (steps w). \<not> banned_step s)"
      by (simp add: w_def banned_step_def BANNED_PATTERNS_def re_search_def uni_isspace_def byte_def)
    from semantic_check_first_error[of w] h1 h2 h3 h4 have "(\<exists>order. semantic_check w = Inr order)" by blast
    with h1 h2 h3 h4 show ?thesis unfolding Let_def w_def[symmetric] by blast
  qed
  from c1 c2 c3 c4 c5 show ?thesis by blast
qed

section \<open>Properties of the notifier\<close>

lemma line_breaks_append [simp]: "line_breaks (a @ b) = line_breaks a + line_breaks b"
  by (simp add: line_breaks_def)

lemma line_breaks_Cons:
  "line_breaks (c # t) = (if c = CHR 0x0A \<or> c = CHR 0x0D then 1 else 0) + line_breaks t"
  by (simp add: line_breaks_def)

lemma line_breaks_take_drop: "line_breaks (drop k t) \<le> line_breaks t"
proof -
  have "line_breaks t = line_breaks (take k t) + line_breaks (drop k t)"
    by (metis append_take_drop_id line_breaks_append)
  then show ?thesis by simp
qed

lemma line_breaks_replace_token:
  "line_breaks new = 0 \<Longrightarrow> line_breaks s = 0 \<Longrightarrow> line_breaks (replace_token new s) = 0"
proof (induction new s rule: replace_token.induct)
  case (1 new)
  then show ?case by simp
next
  case (2 new c t)
  have t: "line_breaks t = 0" using "2.prems"(2) by (simp add: line_breaks_Cons split: if_splits)
  have c: "\<not> (c = CHR 0x0A \<or> c = CHR 0x0D)"
    using "2.prems"(2) by (simp add: line_breaks_Cons split: if_splits)
  have d: "line_breaks (drop (length failed_step_token) (c # t)) = 0"
    using line_breaks_take_drop[of "length failed_step_token" "c # t"] "2.prems"(2) by simp
  show ?case
  proof (cases "take (length failed_step_token) (c # t) = failed_step_token")
    case True
    with "2.IH"(1)[OF True "2.prems"(1) d] "2.prems"(1) show ?thesis by simp
  next
    case False
    with "2.IH"(2)[OF False "2.prems"(1) t] c show ?thesis by (simp add: line_breaks_Cons)
  qed
qed

lemma notify_map_append:
  "notify_map (ns @ [n]) = (notify_map ns)(dict_get (n_name n) \<mapsto> n)"
  by (simp add: notify_map_def)

lemma notify_map_None:
  "(\<forall>n\<in>set ns. dict_get (n_name n) \<noteq> Some h) \<Longrightarrow> notify_map ns (Some h) = None"
  by (induction ns rule: rev_induct) (auto simp: notify_map_append notify_map_def)

lemma notify_map_last:
  assumes "dict_get (n_name n) = Some h" "\<forall>m\<in>set ns2. dict_get (n_name m) \<noteq> Some h"
  shows "notify_map (ns1 @ n # ns2) (Some h) = Some n"
  using assms(2)
proof (induction ns2 rule: rev_induct)
  case Nil
  show ?case using assms(1) notify_map_append[of ns1 n] by simp
next
  case (snoc m ns2)
  have "notify_map (ns1 @ n # ns2 @ [m]) = (notify_map (ns1 @ n # ns2))(dict_get (n_name m) \<mapsto> m)"
    using notify_map_append[of "ns1 @ n # ns2" m] by simp
  with snoc show ?case by auto
qed

lemma line_breaks_Nil [simp]: "line_breaks [] = 0"
  by (simp add: line_breaks_def)

lemma notify_record_lines:
  assumes "line_breaks timestamp = 0" "line_breaks notify_name = 0" "one_line failed_step"
    "one_line (dict_get (n_email n))" "one_line (dict_get (n_subject n))"
    "one_line (dict_get (n_body n))"
  shows "line_breaks (notify_record timestamp notify_name n failed_step) = 1"
proof -
  have b: "one_line (case (failed_step, dict_get (n_body n)) of
                     (Some f, Some b) \<Rightarrow> if f \<noteq> [] \<and> b \<noteq> [] then Some (replace_token f b)
                                          else dict_get (n_body n)
                   | _ \<Rightarrow> dict_get (n_body n))"
    using assms(3,6) line_breaks_replace_token
    by (auto simp: one_line_def split: option.splits)
  show ?thesis
    using assms(1,2,4,5) b
    unfolding notify_record_def Let_def one_line_def
    by (simp add: line_breaks_Cons)
qed

lemma missing_record_lines:
  assumes "line_breaks timestamp = 0" "line_breaks notify_name = 0" "one_line failed_step"
  shows "line_breaks (missing_record timestamp notify_name failed_step) = 1"
  using assms unfolding missing_record_def one_line_def
  by (simp add: line_breaks_Cons)

lemma replace_token_at_token:
  "replace_token new (failed_step_token @ t) = new @ replace_token new t"
  by (simp add: failed_step_token_def)

lemma emit_notify_known:
  assumes "dict_get (n_name n) = Some h" "\<forall>m\<in>set ns2. dict_get (n_name m) \<noteq> Some h"
  shows "ParallelVM_emit_notify (ns1 @ n # ns2) True ts h f log =
           (if has_surrogate (notify_record ts h n f) then Inl UnicodeEncodeError
            else Inr (log @ notify_record ts h n f))"
  using notify_map_last[OF assms, of ns1] by (simp add: ParallelVM_emit_notify_def)

lemma emit_notify_missing:
  assumes "\<forall>n\<in>set ns. dict_get (n_name n) \<noteq> Some h"
  shows "ParallelVM_emit_notify ns True ts h f log =
           (if has_surrogate (missing_record ts h f) then Inl UnicodeEncodeError
            else Inr (log @ missing_record ts h f))"
  using notify_map_None[OF assms] by (simp add: ParallelVM_emit_notify_def)

lemma last_records:
  "last (notify_record ts h n f) = CHR 0x0A" "last (missing_record ts h f) = CHR 0x0A"
  by (simp_all add: notify_record_def missing_record_def Let_def)

text \<open>
  C8, as the claim states it, fails: an invocation does not always append exactly one
  line.  With a notifier whose body holds a line feed the appended record is two lines;
  when the log file cannot be opened the call raises \<^verbatim>\<open>OSError\<close> and appends nothing; and
  when the body holds a surrogate code point (here U+D800) \<^verbatim>\<open>write\<close> raises
  \<^verbatim>\<open>UnicodeEncodeError\<close> and appends nothing.
\<close>

theorem emit_notify_counterexample:
  "ParallelVM_emit_notify
     [\<lparr>n_name = Val ''notify_ops'', n_email = Val ''ops@example.com'',
       n_subject = Val ''Step failed'',
       n_body = Val (''Step ${failed_step} failed.'' @ [CHR 0x0A] @ ''Please check.'')\<rparr>]
     True ''2024-01-01 00:00:00'' ''notify_ops'' (Some ''a'') []
   = Inr (''[2024-01-01 00:00:00] NOTIFY notify_ops -> email: ops@example.com ''
          @ ''subject: Step failed body: Step a failed.'' @ [CHR 0x0A]
          @ ''Please check.'' @ [CHR 0x0A]) \<and>
   ParallelVM_emit_notify
     [\<lparr>n_name = Val ''notify_ops'', n_email = Val ''ops@example.com'',
       n_subject = Val ''Step failed'', n_body = Val ''Step ${failed_step} failed.''\<rparr>]
     False ''2024-01-01 00:00:00'' ''notify_ops'' (Some ''a'') [] = Inl OSError \<and>
   ParallelVM_emit_notify
     [\<lparr>n_name = Val ''notify_ops'', n_email = Val ''ops@example.com'',
       n_subject = Val ''Step failed'', n_body = Val [CHR 0xED, CHR 0xA0, CHR 0x80]\<rparr>]
     True ''2024-01-01 00:00:00'' ''notify_ops'' (Some ''a'') [] = Inl UnicodeEncodeError"
  by (simp add: ParallelVM_emit_notify_def notify_map_def notify_record_def failed_step_token_def
      byte_def)

text \<open>
  C8, amended.  An invocation of \<^verbatim>\<open>_emit_notify\<close> with a handler name and a failed step
  name raises \<^verbatim>\<open>OSError\<close> when the log file cannot be opened.  Otherwise it forms one
  record that ends in a line feed, raises \<^verbatim>\<open>UnicodeEncodeError\<close> if the record holds a
  surrogate code point, and else appends exactly that record to the log.  If no notifier
  has the handler name, the record is
  \<^verbatim>\<open>[timestamp] NOTIFY-MISSING handler for failed_step=name\<close>.  If a notifier has the
  handler name, the last such notifier is used; with an email, a subject, a non-empty
  body and a non-empty step name the record is
  \<^verbatim>\<open>[timestamp] NOTIFY handler -> email: e subject: s body: b\<close>, where \<open>b\<close> is the body with
  every \<^verbatim>\<open>${failed_step}\<close> replaced by the step name.  The record is a single line (its
  only line break is the final line feed) when the timestamp, the handler name, the step
  name and the email, subject and body of the notifier hold no line feed and no carriage
  return.
\<close>

theorem emit_notify_amended:
  "ParallelVM_emit_notify ns False ts h f log = Inl OSError \<and>
   ((\<forall>n\<in>set ns. dict_get (n_name n) \<noteq> Some h) \<longrightarrow>
      (\<exists>r. r = ''['' @ ts @ ''] NOTIFY-MISSING '' @ h @ '' for failed_step='' @ py_str f
                 @ [CHR 0x0A] \<and>
           ParallelVM_emit_notify ns True ts h f log
             = (if has_surrogate r then Inl UnicodeEncodeError else Inr (log @ r)) \<and>
           (line_breaks ts = 0 \<and> line_breaks h = 0 \<and> one_line f \<longrightarrow> line_breaks r = 1))) \<and>
   (dict_get (n_name n) = Some h \<and> (\<forall>m\<in>set ns2. dict_get (n_name m) \<noteq> Some h) \<longrightarrow>
      (\<exists>r. ParallelVM_emit_notify (ns1 @ n # ns2) True ts h f log
             = (if has_surrogate r then Inl UnicodeEncodeError else Inr (log @ r)) \<and>
           last r = CHR 0x0A \<and>
           (line_breaks ts = 0 \<and> line_breaks h = 0 \<and> one_line f \<and>
            one_line (dict_get (n_email n)) \<and> one_line (dict_get (n_subject n)) \<and>
            one_line (dict_get (n_body n)) \<longrightarrow> line_breaks r = 1) \<and>
           (n_email n = Val e \<and> n_subject n = Val su \<and> n_body n = Val b \<and> b \<noteq> [] \<and>
            f = Some s \<and> s \<noteq> [] \<longrightarrow>
              r = ''['' @ ts @ ''] NOTIFY '' @ h @ '' -> email: '' @ e @ '' subject: '' @ su
                  @ '' body: '' @ replace_token s b @ [CHR 0x0A])))"
proof (intro conjI impI)
  show "ParallelVM_emit_notify ns False ts h f log = Inl OSError"
    by (simp add: ParallelVM_emit_notify_def)
next
  assume a: "\<forall>n\<in>set ns. dict_get (n_name n) \<noteq> Some h"
  have r: "missing_record ts h f = ''['' @ ts @ ''] NOTIFY-MISSING '' @ h @ '' for failed_step=''
             @ py_str f @ [CHR 0x0A]"
    by (simp add: missing_record_def)
  have l: "line_breaks ts = 0 \<and> line_breaks h = 0 \<and> one_line f
             \<longrightarrow> line_breaks (missing_record ts h f) = 1"
    using missing_record_lines by blast
  from emit_notify_missing[OF a, of ts f log] r l
  show "\<exists>r. r = ''['' @ ts @ ''] NOTIFY-MISSING '' @ h @ '' for failed_step='' @ py_str f
                 @ [CHR 0x0A] \<and>
           ParallelVM_emit_notify ns True ts h f log
             = (if has_surrogate r then Inl UnicodeEncodeError else Inr (log @ r)) \<and>
           (line_breaks ts = 0 \<and> line_breaks h = 0 \<and> one_line f \<longrightarrow> line_breaks r = 1)"
    by metis
next
  assume a: "dict_get (n_name n) = Some h \<and> (\<forall>m\<in>set ns2. dict_get (n_name m) \<noteq> Some h)"
  then have k: "ParallelVM_emit_notify (ns1 @ n # ns2) True ts h f log
                  = (if has_surrogate (notify_record ts h n f) then Inl UnicodeEncodeError
                     else Inr (log @ notify_record ts h n f))"
    using emit_notify_known by blast
  have l: "last (notify_record ts h n f) = CHR 0x0A" by (rule last_records)
  have o: "line_breaks ts = 0 \<and> line_breaks h = 0 \<and> one_line f \<and>
            one_line (dict_get (n_email n)) \<and> one_line (dict_get (n_subject n)) \<and>
            one_line (dict_get (n_body n)) \<longrightarrow> line_breaks (notify_record ts h n f) = 1"
    using notify_record_lines by blast
  have t: "n_email n = Val e \<and> n_subject n = Val su \<and> n_body n = Val b \<and> b \<noteq> [] \<and>
            f = Some s \<and> s \<noteq> [] \<longrightarrow>
              notify_record ts h n f
                = ''['' @ ts @ ''] NOTIFY '' @ h @ '' -> email: '' @ e @ '' subject: '' @ su
                  @ '' body: '' @ replace_token s b @ [CHR 0x0A]"
    by (simp add: notify_record_def)
  from k l o t
  show "\<exists>r. ParallelVM_emit_notify (ns1 @ n # ns2) True ts h f log
             = (if has_surrogate r then Inl UnicodeEncodeError else Inr (log @ r)) \<and>
           last r = CHR 0x0A \<and>
           (line_breaks ts = 0 \<and> line_breaks h = 0 \<and> one_line f \<and>
            one_line (dict_get (n_email n)) \<and> one_line (dict_get (n_subject n)) \<and>
            one_line (dict_get (n_body n)) \<longrightarrow> line_breaks r = 1) \<and>
           (n_email n = Val e \<and> n_subject n = Val su \<and> n_body n = Val b \<and> b \<noteq> [] \<and>
            f = Some s \<and> s \<noteq> [] \<longrightarrow>
              r = ''['' @ ts @ ''] NOTIFY '' @ h @ '' -> email: '' @ e @ '' subject: '' @ su
                  @ '' body: '' @ replace_token s b @ [CHR 0x0A])"
    by blast
qed

theorem emit_notify_amended_witness:
  "(let n = \<lparr>n_name = Val ''notify_ops'', n_email = Val ''ops@example.com'',
              n_subject = Val ''Step failed'', n_body = Val ''Step ${failed_step} failed.''\<rparr>
    in ParallelVM_emit_notify [n] True ''2024-01-01 00:00:00'' ''notify_ops'' (Some ''a'') ''x''
         = Inr (''x[2024-01-01 00:00:00] NOTIFY notify_ops -> email: ops@example.com ''
                @ ''subject: Step failed body: Step a failed.'' @ [CHR 0x0A]) \<and>
       ParallelVM_emit_notify [n] True ''2024-01-01 00:00:00'' ''pager'' (Some ''a'') ''x''
         = Inr (''x[2024-01-01 00:00:00] NOTIFY-MISSING pager for failed_step=a'' @ [CHR 0x0A]))"
proof -
  define n where "n = \<lparr>n_name = Val ''notify_ops'', n_email = Val ''ops@example.com'',
              n_subject = Val ''Step failed'', n_body = Val ''Step ${failed_step} failed.''\<rparr>"
  have h1: "dict_get (n_name n) = Some ''notify_ops'' \<and>
            (\<forall>m\<in>set []. dict_get (n_name m) \<noteq> Some ''notify_ops'')"
    by (simp add: n_def)
  have h2: "n_email n = Val ''ops@example.com'' \<and> n_subject n = Val ''Step failed'' \<and>
            n_body n = Val ''Step ${failed_step} failed.'' \<and> ''Step ${failed_step} failed.'' \<noteq> [] \<and>
            Some ''a'' = Some ''a'' \<and> ''a'' \<noteq> []"
    by (simp add: n_def)
  have s1: "\<not> has_surrogate (''[2024-01-01 00:00:00] NOTIFY notify_ops -> email: ops@example.com ''
                @ ''subject: Step failed body: Step a failed.'' @ [CHR 0x0A])"
    by simp
  have s2: "\<not> has_surrogate (''[2024-01-01 00:00:00] NOTIFY-MISSING pager for failed_step=a''
                @ [CHR 0x0A])"
    by simp
  have h3: "\<forall>m\<in>set [n]. dict_get (n_name m) \<noteq> Some ''pager''" by (simp add: n_def)
  from emit_notify_amended[of "[]" "''2024-01-01 00:00:00''" "''notify_ops''" "Some ''a''" "''x''"
      n "[]" "[]" "''ops@example.com''" "''Step failed''" "''Step ${failed_step} failed.''" "''a''"]
    h1 h2
  obtain r where r: "ParallelVM_emit_notify [n] True ''2024-01-01 00:00:00'' ''notify_ops''
                       (Some ''a'') ''x''
                     = (if has_surrogate r then Inl UnicodeEncodeError else Inr (''x'' @ r))"
      "r = ''['' @ ''2024-01-01 00:00:00'' @ ''] NOTIFY '' @ ''notify_ops'' @ '' -> email: ''
             @ ''ops@example.com'' @ '' subject: '' @ ''Step failed'' @ '' body: ''
             @ replace_token ''a'' ''Step ${failed_step} failed.'' @ [CHR 0x0A]"
    by auto
  have a: "ParallelVM_emit_notify [n] True ''2024-01-01 00:00:00'' ''notify_ops'' (Some ''a'') ''x''
         = Inr (''x[2024-01-01 00:00:00] NOTIFY notify_ops -> email: ops@example.com ''
                @ ''subject: Step failed body: Step a failed.'' @ [CHR 0x0A])"
  proof -
    have rv: "r = ''[2024-01-01 00:00:00] NOTIFY notify_ops -> email: ops@example.com ''
                @ ''subject: Step failed body: Step a failed.'' @ [CHR 0x0A]"
      using r(2) by (simp add: failed_step_token_def)
    show ?thesis using r(1) s1 unfolding rv by simp
  qed
  from emit_notify_amended[of "[n]" "''2024-01-01 00:00:00''" "''pager''" "Some ''a''" "''x''"] h3
  obtain q where q: "ParallelVM_emit_notify [n] True ''2024-01-01 00:00:00'' ''pager''
                       (Some ''a'') ''x''
                     = (if has_surrogate q then Inl UnicodeEncodeError else Inr (''x'' @ q))"
      "q = ''['' @ ''2024-01-01 00:00:00'' @ ''] NOTIFY-MISSING '' @ ''pager''
             @ '' for failed_step='' @ py_str (Some ''a'') @ [CHR 0x0A]"
    by auto
  have b: "ParallelVM_emit_notify [n] True ''2024-01-01 00:00:00'' ''pager'' (Some ''a'') ''x''
         = Inr (''x[2024-01-01 00:00:00] NOTIFY-MISSING pager for failed_step=a'' @ [CHR 0x0A])"
  proof -
    have qv: "q = ''[2024-01-01 00:00:00] NOTIFY-MISSING pager for failed_step=a'' @ [CHR 0x0A]"
      using q(2) by simp
    show ?thesis using q(1) s2 unfolding qv by simp
  qed
  from a b show ?thesis unfolding Let_def n_def[symmetric] by blast
qed

end
